theory Spec2Isabelle
  imports Main "HOL-Library.Sublist"
begin

section \<open>JavaScript strings\<close>

text \<open>
  Keystroke ids, key names and spoken lines are modelled as \<^typ>\<open>string\<close>: a list of 8-bit
  characters, read as the UTF-16 code units 0 to 255 of a JavaScript string (text in
  Latin-1; text with a code unit beyond 255 is outside the model). On such text the
  functions below are those of JavaScript:
  \<^item> \<open>\w\<close> and \<open>\b\<close> of a regular expression know the ASCII letters, the digits and \<open>_\<close> only;
  \<^item> \<open>\s\<close> and \<open>trim\<close> know the white space and the line terminators of the language: of
    the 8-bit characters these are 9 to 13, the space 32 and the no-break space 160;
  \<^item> \<open>toLowerCase\<close> maps \<open>A\<close> to \<open>Z\<close> and the capital letters 192 to 222 of Latin-1 (215, the
    multiplication sign, is no letter) to the letters 32 above them;
  \<^item> \<open>toUpperCase\<close> maps \<open>a\<close> to \<open>z\<close> and the small letters 224 to 254 of Latin-1 (247, the
    division sign, is no letter) to the letters 32 below them. Three small letters have
    no capital that is one 8-bit character: 223 (sharp s, whose capital is \<open>SS\<close>), 181
    (micro sign) and 255 (y with diaeresis), whose capitals lie beyond 255; the model
    leaves these three as they are.

  The values the key table maps to lie beyond 255 (code points from E000 on), so a mapped
  key is a list of UTF-16 code units, each an integer.
\<close>

type_synonym code_units = "int list"

definition str :: "string \<Rightarrow> code_units" where
  "str s = map of_char s"

definition is_digit :: "char \<Rightarrow> bool" where
  "is_digit c \<longleftrightarrow> 48 \<le> (of_char c :: nat) \<and> (of_char c :: nat) \<le> 57"

definition is_upper :: "char \<Rightarrow> bool" where
  "is_upper c \<longleftrightarrow> 65 \<le> (of_char c :: nat) \<and> (of_char c :: nat) \<le> 90"

definition is_lower :: "char \<Rightarrow> bool" where
  "is_lower c \<longleftrightarrow> 97 \<le> (of_char c :: nat) \<and> (of_char c :: nat) \<le> 122"

definition is_alnum :: "char \<Rightarrow> bool" where
  "is_alnum c \<longleftrightarrow> is_digit c \<or> is_upper c \<or> is_lower c"

text \<open>The regular expression classes \<open>\w\<close> and \<open>\s\<close>.\<close>

definition is_word_char :: "char \<Rightarrow> bool" where
  "is_word_char c \<longleftrightarrow> is_alnum c \<or> c = CHR ''_''"

definition is_space :: "char \<Rightarrow> bool" where
  "is_space c \<longleftrightarrow>
     (of_char c :: nat) = 32 \<or> (9 \<le> (of_char c :: nat) \<and> (of_char c :: nat) \<le> 13)
     \<or> (of_char c :: nat) = 160"

text \<open>The capital and the small letters of Latin-1 beyond ASCII that the case conversions
  map to one another.\<close>

definition is_upper_latin1 :: "char \<Rightarrow> bool" where
  "is_upper_latin1 c \<longleftrightarrow>
     192 \<le> (of_char c :: nat) \<and> (of_char c :: nat) \<le> 222 \<and> (of_char c :: nat) \<noteq> 215"

definition is_lower_latin1 :: "char \<Rightarrow> bool" where
  "is_lower_latin1 c \<longleftrightarrow>
     224 \<le> (of_char c :: nat) \<and> (of_char c :: nat) \<le> 254 \<and> (of_char c :: nat) \<noteq> 247"

definition upper_char :: "char \<Rightarrow> char" where
  "upper_char c =
     (if is_lower c \<or> is_lower_latin1 c then char_of (of_char c - 32 :: nat) else c)"

definition lower_char :: "char \<Rightarrow> char" where
  "lower_char c =
     (if is_upper c \<or> is_upper_latin1 c then char_of (of_char c + 32 :: nat) else c)"

definition toUpperCase :: "string \<Rightarrow> string" where
  "toUpperCase s = map upper_char s"

definition toLowerCase :: "string \<Rightarrow> string" where
  "toLowerCase s = map lower_char s"

definition trim :: "string \<Rightarrow> string" where
  "trim s = rev (dropWhile is_space (rev (dropWhile is_space s)))"

text \<open>\<open>s.startsWith(p)\<close>, by recursion so that it evaluates.\<close>

fun startsWith :: "string \<Rightarrow> string \<Rightarrow> bool" where
  "startsWith s [] = True"
| "startsWith [] (p # ps) = False"
| "startsWith (c # cs) (p # ps) = (c = p \<and> startsWith cs ps)"

text \<open>\<open>s.split(sep)\<close> for a separator that is a class of single characters: the result
  is never empty (the empty string splits into one empty part).\<close>

fun split :: "(char \<Rightarrow> bool) \<Rightarrow> string \<Rightarrow> string list" where
  "split sep [] = [[]]"
| "split sep (c # cs) =
     (if sep c then [] # split sep cs
      else (case split sep cs of p # ps \<Rightarrow> (c # p) # ps | [] \<Rightarrow> [[c]]))"

text \<open>\<open>lines.join(sep)\<close>.\<close>

fun join :: "string \<Rightarrow> string list \<Rightarrow> string" where
  "join sep [] = []"
| "join sep [x] = x"
| "join sep (x # y # ys) = x @ sep @ join sep (y # ys)"

text \<open>\<open>n.toString()\<close> of a non-negative integer: its decimal digits.\<close>

fun toString :: "nat \<Rightarrow> string" where
  "toString n =
     (if n < 10 then [char_of (48 + n)]
      else toString (n div 10) @ [char_of (48 + n mod 10)])"

section \<open>The key model (at-driver.js)\<close>

definition seleniumKeysMap :: "(string \<times> code_units) list" where
  "seleniumKeysMap =
    [(''NULL'', [0xE000]), (''CANCEL'', [0xE001]), (''HELP'', [0xE002]),
     (''BACKSPACE'', [0xE003]), (''TAB'', [0xE004]), (''CLEAR'', [0xE005]),
     (''RETURN'', [0xE006]), (''ENTER'', [0xE007]), (''SHIFT'', [0xE008]),
     (''CONTROL'', [0xE009]), (''ALT'', [0xE00A]), (''PAUSE'', [0xE00B]),
     (''ESCAPE'', [0xE00C]), (''SPACE'', [0xE00D]), (''PAGE_UP'', [0xE00E]),
     (''PAGE_DOWN'', [0xE00F]), (''END'', [0xE010]), (''HOME'', [0xE011]),
     (''LEFT'', [0xE012]), (''UP'', [0xE013]), (''RIGHT'', [0xE014]),
     (''DOWN'', [0xE015]), (''INSERT'', [0xE016]), (''DELETE'', [0xE017]),
     (''SEMICOLON'', [0xE018]), (''EQUALS'', [0xE019]),
     (''NUMPAD0'', [0xE01A]), (''NUMPAD1'', [0xE01B]), (''NUMPAD2'', [0xE01C]),
     (''NUMPAD3'', [0xE01D]), (''NUMPAD4'', [0xE01E]), (''NUMPAD5'', [0xE01F]),
     (''NUMPAD6'', [0xE020]), (''NUMPAD7'', [0xE021]), (''NUMPAD8'', [0xE022]),
     (''NUMPAD9'', [0xE023]), (''MULTIPLY'', [0xE024]), (''ADD'', [0xE025]),
     (''SEPARATOR'', [0xE026]), (''SUBTRACT'', [0xE027]), (''DECIMAL'', [0xE028]),
     (''DIVIDE'', [0xE029]),
     (''F1'', [0xE031]), (''F2'', [0xE032]), (''F3'', [0xE033]), (''F4'', [0xE034]),
     (''F5'', [0xE035]), (''F6'', [0xE036]), (''F7'', [0xE037]), (''F8'', [0xE038]),
     (''F9'', [0xE039]), (''F10'', [0xE03A]), (''F11'', [0xE03B]), (''F12'', [0xE03C]),
     (''META'', [0xE03D]), (''COMMAND'', [0xE03D]), (''ZENKAKU_HANKAKU'', [0xE040])]"

text \<open>\<open>new ATKey(key)\<close>: the key and \<open>seleniumKeysMap[key.toUpperCase()] ?? key\<close>.\<close>

record ATKey =
  key :: string
  mapped :: code_units

definition ATKey_key :: "string \<Rightarrow> ATKey" where
  "ATKey_key k =
     \<lparr>key = k,
      mapped = (case map_of seleniumKeysMap (toUpperCase k) of Some v \<Rightarrow> v | None \<Rightarrow> str k)\<rparr>"

datatype ATKeyChord = ATKeyChord (keys: "ATKey list")

datatype ATKeySequence = ATKeySequence (chords: "ATKeyChord list")

text \<open>What \<open>ATKey.sequence\<close> and \<open>sendKeys\<close> accept: a key, a chord or a sequence.\<close>

datatype item = Key ATKey | Chord ATKeyChord | Seq ATKeySequence

definition ATKey_chord :: "ATKey list \<Rightarrow> ATKeyChord" where
  "ATKey_chord ks = ATKeyChord ks"

text \<open>The loop of \<open>ATKey.sequence\<close>, with \<open>normalized\<close> as its accumulator:
  a chord is pushed, a key is pushed as a chord of its own, a sequence is spread.\<close>

fun sequence_loop :: "ATKeyChord list \<Rightarrow> item list \<Rightarrow> ATKeyChord list" where
  "sequence_loop normalized [] = normalized"
| "sequence_loop normalized (Chord c # rest) = sequence_loop (normalized @ [c]) rest"
| "sequence_loop normalized (Key k # rest) = sequence_loop (normalized @ [ATKey_chord [k]]) rest"
| "sequence_loop normalized (Seq s # rest) = sequence_loop (normalized @ chords s) rest"

definition ATKey_sequence :: "item list \<Rightarrow> ATKeySequence" where
  "ATKey_sequence items = ATKeySequence (sequence_loop [] items)"

section \<open>The AT protocol client (at-driver.js)\<close>

datatype js_error = Error string | TypeError string

text \<open>How an asynchronous operation fails: it throws, or it waits for ever for something
  that does not come (\<open>Pending\<close>). No \<open>catch\<close> and no \<open>finally\<close> runs after a wait that never
  ends.\<close>

datatype failure = Thrown js_error | Pending

text \<open>An inbound frame, as far as \<open>_send\<close> reads it: its \<open>id\<close> and \<open>error\<close> fields.\<close>

record message =
  msg_id :: "string option"
  msg_error :: "string option"

datatype params = PressKeys "code_units list" | SetSettings "(string \<times> bool) list"

record at_command =
  rpc_method :: string
  rpc_params :: params

datatype agent_message =
  AT_DRIVER_COMMS | OPEN_PAGE | NO_RUN_TEST_SETUP | PRESS_KEYS | SPEECH_EVENT
  | INVALID_KEYS | CAPABILITIES | START_TEST

datatype page = AboutBlank | ReferencePage string

text \<open>Everything the runner does to the outside, in the order it does it.\<close>

datatype event =
    Log agent_message
  | SocketSend string at_command
  | Navigate page
  | DocumentReady
  | ClickWhenPresent
  | BrowserGetCapabilities
  | ATGetCapabilities

text \<open>
  The mutable state: the driver's \<open>_nextId\<close>, and the environment as a script. \<open>inbound\<close>
  are the frames the socket still delivers and \<open>closes\<close> says whether it then closes, once:
  when it stays open, or has closed before, a wait for a further frame never ends. \<open>speech\<close> are
  the utterances captured in each of the coming collection windows, \<open>None\<close> for a window
  in which the speech never pauses as long as the debounce delay. \<open>clicks\<close> says whether
  the set-up button is found at each of the coming attempts, \<open>reported\<close> what the browser
  driver and the AT driver answer when asked for their capabilities. The frames of
  captured speech are kept apart from \<open>inbound\<close>: when they arrive is a matter of real
  time.
\<close>

record capabilities =
  atName :: "string option"
  atVersion :: "string option"
  browserName :: "string option"
  browserVersion :: "string option"
  platformName :: "string option"

record world =
  nextId :: nat
  inbound :: "message list"
  closes :: bool
  speech :: "string list option list"
  clicks :: "bool list"
  reported :: capabilities
  events :: "event list"

definition emit :: "event list \<Rightarrow> world \<Rightarrow> world" where
  "emit es w = w\<lparr>events := events w @ es\<rparr>"

text \<open>The requests sent over the socket so far, oldest first.\<close>

fun sent_of :: "event list \<Rightarrow> (string \<times> at_command) list" where
  "sent_of [] = []"
| "sent_of (SocketSend i c # es) = (i, c) # sent_of es"
| "sent_of (e # es) = sent_of es"

definition sent :: "world \<Rightarrow> (string \<times> at_command) list" where
  "sent w = sent_of (events w)"

text \<open>JavaScript truthiness of an optional string: defined and not empty.\<close>

fun truthy :: "'a list option \<Rightarrow> bool" where
  "truthy None = False"
| "truthy (Some s) = (s \<noteq> [])"

text \<open>
  The \<open>for await\<close> loop of \<open>_send\<close> over the inbound frames: frames with another id are
  passed over; the frame with the request's id ends the wait, with an exception when its
  \<open>error\<close> is truthy; when the frames end with the socket closing, the loop ends and
  \<open>_send\<close> returns; when they end with the socket open, \<open>_send\<close> never returns. The
  socket closes once: after the wait that its closing has ended, a later \<open>_send\<close> listens
  for a frame or a closing that does not come. (The iterator over the events of the
  socket is that of the module \<open>shared/iterate-emitter.js\<close>, taken to end at the event
  \<open>close\<close> raised while it listens.) The result is the outcome, the frames left and
  whether the socket is still to close.
\<close>

fun await_reply ::
  "string \<Rightarrow> bool \<Rightarrow> message list \<Rightarrow> (failure + unit) \<times> message list \<times> bool" where
  "await_reply i closing [] = (if closing then Inr () else Inl Pending, [], False)"
| "await_reply i closing (m # ms) =
     (if msg_id m = Some i
      then (if truthy (msg_error m) then (Inl (Thrown (Error (the (msg_error m)))), ms, closing)
            else (Inr (), ms, closing))
      else await_reply i closing ms)"

definition send :: "at_command \<Rightarrow> world \<Rightarrow> (failure + unit) \<times> world" where
  "send command w =
     (let i = toString (nextId w);
          (r, rest, closing) = await_reply i (closes w) (inbound w)
      in (r, w\<lparr>nextId := nextId w + 1,
               inbound := rest,
               closes := closing,
               events := events w @ [Log AT_DRIVER_COMMS, SocketSend i command]
                 @ replicate (length (inbound w) - length rest) (Log AT_DRIVER_COMMS)\<rparr>))"

text \<open>
  \<open>sendKeys\<close>: the outer loop runs over the chords of \<open>ATKey.sequence(...keys)\<close>, the inner
  loop over the keys of the chord; its body sends the mapped keys of the whole chord.
\<close>

fun sendKeys_chord :: "ATKey list \<Rightarrow> ATKeyChord \<Rightarrow> world \<Rightarrow> (failure + unit) \<times> world" where
  "sendKeys_chord [] chord w = (Inr (), w)"
| "sendKeys_chord (k # ks) chord w =
     (case send \<lparr>rpc_method = ''interaction.pressKeys'',
                 rpc_params = PressKeys (map mapped (keys chord))\<rparr> w of
        (Inl e, w') \<Rightarrow> (Inl e, w')
      | (Inr _, w') \<Rightarrow> sendKeys_chord ks chord w')"

fun sendKeys_loop :: "ATKeyChord list \<Rightarrow> world \<Rightarrow> (failure + unit) \<times> world" where
  "sendKeys_loop [] w = (Inr (), w)"
| "sendKeys_loop (chord # rest) w =
     (case sendKeys_chord (keys chord) chord w of
        (Inl e, w') \<Rightarrow> (Inl e, w')
      | (Inr _, w') \<Rightarrow> sendKeys_loop rest w')"

definition sendKeys :: "item list \<Rightarrow> world \<Rightarrow> (failure + unit) \<times> world" where
  "sendKeys items w = sendKeys_loop (chords (ATKey_sequence items)) w"

section \<open>Validating and mapping the keys of a command (driver-test-runner.js)\<close>

record keypress =
  kp_id :: string

record command =
  cmd_id :: string
  keypresses :: "keypress list"
  settings :: "string option"

text \<open>\<open>id.replace(/(PAGE)_(DOWN|UP)/, '$1$2')\<close>: the first \<open>PAGE_DOWN\<close> or \<open>PAGE_UP\<close>
  loses its underscore.\<close>

fun replace_page :: "string \<Rightarrow> string" where
  "replace_page [] = []"
| "replace_page (c # cs) =
     (if startsWith (c # cs) ''PAGE_DOWN'' then ''PAGEDOWN'' @ drop 9 (c # cs)
      else if startsWith (c # cs) ''PAGE_UP'' then ''PAGEUP'' @ drop 7 (c # cs)
      else c # replace_page cs)"

text \<open>\<open>id.replace('+', '_')\<close>: a string pattern replaces the first occurrence only.\<close>

fun replace_first_plus :: "string \<Rightarrow> string" where
  "replace_first_plus [] = []"
| "replace_first_plus (c # cs) =
     (if c = CHR ''+'' then CHR ''_'' # cs else c # replace_first_plus cs)"

text \<open>\<open>id.replace(/_ARROW/g, '')\<close>: every occurrence goes, scanning from the left.\<close>

fun remove_ARROW :: "string \<Rightarrow> string" where
  "remove_ARROW [] = []"
| "remove_ARROW (c # cs) =
     (if startsWith (c # cs) ''_ARROW'' then remove_ARROW (drop 5 cs)
      else c # remove_ARROW cs)"

definition normalize_id :: "string \<Rightarrow> string" where
  "normalize_id i = remove_ARROW (replace_first_plus (replace_page i))"

text \<open>\<open>/\bw\b/.test(s)\<close> for a word \<open>w\<close> of word characters: \<open>w\<close> occurs with no word
  character before it and none after it. The flag says whether the character before the
  current position is a word character.\<close>

definition word_at :: "string \<Rightarrow> string \<Rightarrow> bool" where
  "word_at w s \<longleftrightarrow>
     startsWith s w \<and> (case drop (length w) s of [] \<Rightarrow> True | c # cs \<Rightarrow> \<not> is_word_char c)"

fun test_word_from :: "bool \<Rightarrow> string \<Rightarrow> string \<Rightarrow> bool" where
  "test_word_from prev w [] = False"
| "test_word_from prev w (c # cs) =
     ((\<not> prev \<and> word_at w (c # cs)) \<or> test_word_from (is_word_char c) w cs)"

definition test_word :: "string \<Rightarrow> string \<Rightarrow> bool" where
  "test_word w s = test_word_from False w s"

text \<open>The class \<open>[_+,]\<close> that \<open>id.split(/[_+,]/)\<close> splits at.\<close>

definition is_separator :: "char \<Rightarrow> bool" where
  "is_separator c \<longleftrightarrow> c = CHR ''_'' \<or> c = CHR ''+'' \<or> c = CHR '',''"

definition quoted :: "string \<Rightarrow> string" where
  "quoted s = [CHR 0x27] @ s @ [CHR 0x27]"

text \<open>
  The table \<open>webDriverCodePoints\<close> that the validator imports is not in the sources at
  hand; it is a parameter \<open>tbl\<close> of the validator, from upper-case key names to code
  points. \<open>!tbl[part.toUpperCase()]\<close> holds for a name that is absent or maps to the empty
  string.
\<close>

type_synonym key_table = "string \<Rightarrow> code_units option"

definition recognized :: "key_table \<Rightarrow> string \<Rightarrow> bool" where
  "recognized tbl name = truthy (tbl name)"

definition part_errors :: "key_table \<Rightarrow> string \<Rightarrow> string \<Rightarrow> string list" where
  "part_errors tbl i part =
     (if length part \<noteq> 1 \<and> \<not> recognized tbl (toUpperCase part)
      then [quoted part @ '' of '' @ quoted i
            @ '' is not a recognized key - use single characters or '' @ [CHR 0x22]
            @ ''Normalized'' @ [CHR 0x22]
            @ '' values from https://w3c.github.io/webdriver/#keyboard-actions'']
      else [])"

text \<open>The errors that one pass of the loop over \<open>command.keypresses\<close> pushes, in order.\<close>

definition keypress_errors :: "key_table \<Rightarrow> string \<Rightarrow> string list" where
  "keypress_errors tbl raw =
     (let i = normalize_id raw in
        (if CHR ''/'' \<in> set i then [quoted i @ '' cannot contain '' @ quoted ''/'' @ ''.''] else [])
      @ (if CHR ''('' \<in> set i \<or> CHR '')'' \<in> set i
         then [quoted i @ '' cannot contain '' @ quoted ''('' @ '' or '' @ quoted '')'' @ ''.'']
         else [])
      @ (if test_word ''or'' i then [quoted i @ '' cannot contain '' @ quoted ''or'' @ ''.''] else [])
      @ (if test_word ''followed'' i
         then [quoted i @ '' cannot contain '' @ quoted ''followed'' @ '' or ''
               @ quoted ''followed by'' @ ''.'']
         else [])
      @ concat (map (part_errors tbl i) (split is_separator i)))"

fun validate_loop :: "key_table \<Rightarrow> string list \<Rightarrow> keypress list \<Rightarrow> string list" where
  "validate_loop tbl errors [] = errors"
| "validate_loop tbl errors (kp # kps) =
     validate_loop tbl (errors @ keypress_errors tbl (kp_id kp)) kps"

text \<open>The object that \<open>validateKeysFromCommand\<close> returns: \<open>{ errors }\<close> or
  \<open>{ value: command }\<close>; a field that is not set is \<open>None\<close>.\<close>

record validation =
  v_value :: "command option"
  v_errors :: "string list option"

definition validateKeysFromCommand :: "key_table \<Rightarrow> command \<Rightarrow> validation" where
  "validateKeysFromCommand tbl c =
     (let errors = validate_loop tbl [] (keypresses c) in
      if length errors > 0 then \<lparr>v_value = None, v_errors = Some errors\<rparr>
      else \<lparr>v_value = Some c, v_errors = None\<rparr>)"

text \<open>The mapper. \<open>.replace(/\+/g, '_')\<close> turns every \<open>+\<close> into \<open>_\<close>;
  \<open>.replace(/\s?arrow\s?/g, '')\<close> removes every \<open>arrow\<close> with one white space before it
  and one after it when they are there; \<open>.replace(/\s/g, '')\<close> removes all white space.\<close>

definition plus_to_underscore :: "string \<Rightarrow> string" where
  "plus_to_underscore s = map (\<lambda>c. if c = CHR ''+'' then CHR ''_'' else c) s"

fun drop_space :: "string \<Rightarrow> string" where
  "drop_space [] = []"
| "drop_space (c # cs) = (if is_space c then cs else c # cs)"

function remove_arrow :: "string \<Rightarrow> string" where
  "remove_arrow [] = []"
| "remove_arrow (c # cs) =
     (if is_space c \<and> startsWith cs ''arrow'' then remove_arrow (drop_space (drop 5 cs))
      else if startsWith (c # cs) ''arrow'' then remove_arrow (drop_space (drop 4 cs))
      else c # remove_arrow cs)"
  by pat_completeness auto

termination remove_arrow
proof (relation "measure length")
  show "wf (measure length)" by simp
next
  fix c :: char and cs :: string
  have "length (drop_space (drop 5 cs)) \<le> length (drop 5 cs)"
    by (cases "drop 5 cs") simp_all
  then show "(drop_space (drop 5 cs), c # cs) \<in> measure length" by simp
next
  fix c :: char and cs :: string
  have "length (drop_space (drop 4 cs)) \<le> length (drop 4 cs)"
    by (cases "drop 4 cs") simp_all
  then show "(drop_space (drop 4 cs), c # cs) \<in> measure length" by simp
next
  fix c :: char and cs :: string
  show "(cs, c # cs) \<in> measure length" by simp
qed

definition key_of_part :: "string \<Rightarrow> ATKey" where
  "key_of_part part =
     ATKey_key (toLowerCase (filter (\<lambda>c. \<not> is_space c)
       (remove_arrow (toLowerCase (trim part)))))"

definition chord_of_id :: "string \<Rightarrow> ATKeyChord" where
  "chord_of_id i =
     ATKey_chord (map key_of_part
       (split (\<lambda>c. c = CHR ''_'') (plus_to_underscore (replace_page i))))"

definition atKeysFromCommand :: "command \<Rightarrow> ATKeySequence" where
  "atKeysFromCommand c =
     ATKey_sequence (map (\<lambda>kp. Chord (chord_of_id (kp_id kp))) (keypresses c))"

section \<open>The test runner (driver-test-runner.js)\<close>

text \<open>
  An asynchronous operation takes the state and returns its result, or how it fails,
  with the new state. \<open>await m k\<close> runs \<open>m\<close> and continues with \<open>k\<close> on its result; a
  failure of \<open>m\<close> ends the whole.
\<close>

type_synonym 'a operation = "world \<Rightarrow> (failure + 'a) \<times> world"

definition await :: "'a operation \<Rightarrow> ('a \<Rightarrow> 'b operation) \<Rightarrow> 'b operation" where
  "await m k w = (case m w of (Inl e, w') \<Rightarrow> (Inl e, w') | (Inr x, w') \<Rightarrow> k x w')"

definition return :: "'a \<Rightarrow> 'a operation" where
  "return x w = (Inr x, w)"

definition throw :: "string \<Rightarrow> 'a operation" where
  "throw msg w = (Inl (Thrown (Error msg)), w)"

text \<open>A call of what is not a function: the TypeError that the language throws.\<close>

definition throwTypeError :: "string \<Rightarrow> 'a operation" where
  "throwTypeError msg w = (Inl (Thrown (TypeError msg)), w)"

definition perform :: "event list \<Rightarrow> unit operation" where
  "perform es w = (Inr (), emit es w)"

record times =
  afterNav :: nat
  afterKeys :: nat
  testSetup :: nat
  modeSwitch :: nat

text \<open>The runner. Its base URL only decides the address of the reference page, which
  the model names by the test's \<open>referencePage\<close>.\<close>

record runner =
  timesOption :: times
  collectedCapabilities :: capabilities

text \<open>\<open>getCapabilities\<close> asks the browser driver, then the AT driver.\<close>

definition getCapabilities :: "world \<Rightarrow> capabilities \<times> world" where
  "getCapabilities w = (reported w, emit [BrowserGetCapabilities, ATGetCapabilities] w)"

text \<open>The constructor: \<open>this.collectedCapabilities = this.getCapabilities()\<close>.\<close>

definition DriverTestRunner :: "times \<Rightarrow> world \<Rightarrow> runner \<times> world" where
  "DriverTestRunner t w =
     (case getCapabilities w of
        (caps, w') \<Rightarrow> (\<lparr>timesOption = t, collectedCapabilities = caps\<rparr>, w'))"

text \<open>
  \<open>_collectSpeech\<close>: the listener job and the debounce loop run in real time; what they
  leave in \<open>spoken\<close> is the next entry of the script \<open>speech\<close> (nothing when the script has
  ended), each utterance logged after the events of the operation; the debounce loop
  never ends in a window whose speech never pauses. A failure of the operation leaves
  \<open>_collectSpeech\<close> at once.
\<close>

definition collectSpeech :: "nat \<Rightarrow> unit operation \<Rightarrow> (string list) operation" where
  "collectSpeech debounceDelay asyncOperation =
     await asyncOperation (\<lambda>_ w.
       (case speech w of
          [] \<Rightarrow> (Inr [], w)
        | None # later \<Rightarrow> (Inl Pending, w\<lparr>speech := later\<rparr>)
        | Some spoken # later \<Rightarrow>
            (Inr spoken, emit (map (\<lambda>_. Log SPEECH_EVENT) spoken) (w\<lparr>speech := later\<rparr>))))"

text \<open>\<open>openPage\<close>: an exception of \<open>clickWhenPresent\<close> is caught and logged.\<close>

definition openPage :: "runner \<Rightarrow> string \<Rightarrow> unit operation" where
  "openPage r referencePage =
     await (perform [Log OPEN_PAGE, Navigate (ReferencePage referencePage), DocumentReady,
                     ClickWhenPresent]) (\<lambda>_ w.
       (case clicks w of
          True # later \<Rightarrow> (Inr (), w\<lparr>clicks := later\<rparr>)
        | False # later \<Rightarrow> perform [Log NO_RUN_TEST_SETUP] (w\<lparr>clicks := later\<rparr>)
        | [] \<Rightarrow> perform [Log NO_RUN_TEST_SETUP] w))"

text \<open>The runner's own \<open>sendKeys\<close>: log, then the driver's \<open>sendKeys\<close>.\<close>

definition runner_sendKeys :: "ATKeySequence \<Rightarrow> unit operation" where
  "runner_sendKeys s = await (perform [Log PRESS_KEYS]) (\<lambda>_. sendKeys [Seq s])"

text \<open>
  The \<open>while\<close> loop of \<open>pressKeysToToggleSetting\<close> over the captured lines: \<open>True\<close> when a
  trimmed line is the desired response up to case (the function returns there), else
  the lines, trimmed, join \<open>unknownCollected\<close>.
\<close>

fun scan_speech :: "string \<Rightarrow> string \<Rightarrow> string list \<Rightarrow> bool \<times> string" where
  "scan_speech desiredResponse unknownCollected [] = (False, unknownCollected)"
| "scan_speech desiredResponse unknownCollected (line # later) =
     (let lastMessage = trim line in
      if toLowerCase lastMessage = toLowerCase desiredResponse then (True, unknownCollected)
      else scan_speech desiredResponse
             ((if length unknownCollected > 0 then unknownCollected @ [CHR 0x0A]
               else unknownCollected) @ lastMessage) later)"

definition unable_to_apply :: "string \<Rightarrow> string \<Rightarrow> string" where
  "unable_to_apply desiredResponse unknownCollected =
     ''Unable to apply setting. Expected: '' @ [CHR 0x22] @ desiredResponse @ [CHR 0x22]
     @ '' Got: '' @ [CHR 0x22] @ unknownCollected @ [CHR 0x22]"

fun toggle_loop ::
  "nat \<Rightarrow> runner \<Rightarrow> ATKeySequence \<Rightarrow> string \<Rightarrow> string \<Rightarrow> unit operation" where
  "toggle_loop 0 r s desiredResponse unknownCollected =
     throw (unable_to_apply desiredResponse unknownCollected)"
| "toggle_loop (Suc triesRemain) r s desiredResponse unknownCollected =
     await (collectSpeech (modeSwitch (timesOption r)) (runner_sendKeys s))
       (\<lambda>speechResponse.
          case scan_speech desiredResponse unknownCollected speechResponse of
            (True, _) \<Rightarrow> return ()
          | (False, unknownCollected') \<Rightarrow>
              toggle_loop triesRemain r s desiredResponse unknownCollected')"

definition pressKeysToToggleSetting :: "runner \<Rightarrow> ATKeySequence \<Rightarrow> string \<Rightarrow> unit operation" where
  "pressKeysToToggleSetting r s desiredResponse = toggle_loop 2 r s desiredResponse []"

text \<open>The settings request of NVDA for \<open>virtualBuffers.passThroughAudioIndication\<close>.\<close>

definition setSettings :: "bool \<Rightarrow> at_command" where
  "setSettings v =
     \<lparr>rpc_method = ''nvda:settings.setSettings'',
      rpc_params = SetSettings [(''virtualBuffers.passThroughAudioIndication'', v)]\<rparr>"

text \<open>The look-up of \<open>settings.toLowerCase()\<close> in the object of the two NVDA modes.\<close>

definition nvda_response :: "string \<Rightarrow> string option" where
  "nvda_response s =
     map_of [(''browsemode'', ''Browse mode''), (''focusmode'', ''Focus mode'')] (toLowerCase s)"

text \<open>
  An object literal also answers to the names that every object inherits. Of these only
  \<open>constructor\<close> and \<open>__proto__\<close> are their own lower case, so only they can be found by a
  lower-cased name: the function \<open>Object\<close> and the object \<open>Object.prototype\<close>, both truthy and
  neither a string. \<open>inherited\<close> gives how the value found reads inside a template literal.
\<close>

definition inherited :: "string \<Rightarrow> string option" where
  "inherited s =
     map_of [(''constructor'', ''function Object() { [native code] }''),
             (''__proto__'', ''[object Object]'')] (toLowerCase s)"

text \<open>
  \<open>pressKeysToToggleSetting\<close> at a desired response that is no string, shown as \<open>shown\<close>: it
  has no \<open>toLowerCase\<close>, so the comparison with the first captured line throws a TypeError;
  when neither attempt captures a line, the error after the loop is thrown, with
  nothing collected.
\<close>

fun toggle_object_loop :: "nat \<Rightarrow> runner \<Rightarrow> ATKeySequence \<Rightarrow> string \<Rightarrow> unit operation" where
  "toggle_object_loop 0 r s shown = throw (unable_to_apply shown [])"
| "toggle_object_loop (Suc triesRemain) r s shown =
     await (collectSpeech (modeSwitch (timesOption r)) (runner_sendKeys s))
       (\<lambda>speechResponse.
          if speechResponse \<noteq> []
          then throwTypeError ''desiredResponse.toLowerCase is not a function''
          else toggle_object_loop triesRemain r s shown)"

definition pressKeysToToggleSetting_object ::
  "runner \<Rightarrow> ATKeySequence \<Rightarrow> string \<Rightarrow> unit operation" where
  "pressKeysToToggleSetting_object r s shown = toggle_object_loop 2 r s shown"

definition chord_of_names :: "string list \<Rightarrow> ATKeySequence" where
  "chord_of_names names = ATKey_sequence [Chord (ATKey_chord (map ATKey_key names))]"

text \<open>\<open>try { ... } finally { ... }\<close>: the second operation runs when the first has
  returned or thrown; its failure wins, else the outcome of the first stands.\<close>

definition try_finally :: "'a operation \<Rightarrow> unit operation \<Rightarrow> 'a operation" where
  "try_finally body cleanup w =
     (case body w of
        (Inl Pending, w') \<Rightarrow> (Inl Pending, w')
      | (res, w') \<Rightarrow>
          (case cleanup w' of (Inl e, w'') \<Rightarrow> (Inl e, w'') | (Inr _, w'') \<Rightarrow> (res, w'')))"

definition ensureSettings :: "runner \<Rightarrow> string \<Rightarrow> unit operation" where
  "ensureSettings r s =
     (let name = atName (collectedCapabilities r) in
      if name = Some ''NVDA'' then
        (case nvda_response s of
           Some desiredResponse \<Rightarrow>
             await (send (setSettings False)) (\<lambda>_.
               try_finally
                 (pressKeysToToggleSetting r (chord_of_names [''insert'', ''space''])
                    desiredResponse)
                 (send (setSettings True)))
         | None \<Rightarrow>
             (case inherited s of
                Some shown \<Rightarrow>
                  await (send (setSettings False)) (\<lambda>_.
                    try_finally
                      (pressKeysToToggleSetting_object r
                         (chord_of_names [''insert'', ''space'']) shown)
                      (send (setSettings True)))
              | None \<Rightarrow>
                  throw (''Unknown command settings for NVDA '' @ [CHR 0x22] @ s @ [CHR 0x22])))
      else if name = Some ''VoiceOver'' then
        (if s = ''quickNavOn'' \<or> s = ''arrowQuickKeyNavOn'' then
           pressKeysToToggleSetting r (chord_of_names [''left'', ''right'']) ''quick nav on''
         else if s = ''quickNavOff'' \<or> s = ''arrowQuickKeyNavOff'' then
           pressKeysToToggleSetting r (chord_of_names [''left'', ''right'']) ''quick nav off''
         else if s = ''singleQuickKeyNavOn'' then
           pressKeysToToggleSetting r (chord_of_names [''control'', ''option'', ''q''])
             ''single-key quick nav on''
         else if s = ''singleQuickKeyNavOff'' then
           pressKeysToToggleSetting r (chord_of_names [''control'', ''option'', ''q''])
             ''single-key quick nav off''
         else if s \<noteq> ''defaultMode'' then
           throw (''Unrecognized setting for VoiceOver: '' @ s)
         else return ())
      else if \<not> truthy name then return ()
      else throw (''Unable to ensure proper settings. Unknown atName '' @ the name))"

definition ensureMode :: "runner \<Rightarrow> string \<Rightarrow> unit operation" where
  "ensureMode r m =
     (let name = atName (collectedCapabilities r) in
      if name = Some ''NVDA'' then
        ensureSettings r (if toLowerCase m = ''reading'' then ''browseMode'' else ''focusMode'')
      else if name = Some ''VoiceOver'' then return ()
      else if \<not> truthy name then return ()
      else throw (''Unable to ensure proper mode. Unknown atName '' @ the name))"

record assertion =
  expectation :: "string option"
  assertionStatement :: "string option"

record target =
  referencePage :: string
  mode :: "string option"

record info =
  testId :: nat
  task :: string
  presentationNumber :: "nat option"

record test =
  info :: info
  target :: target
  commands :: "command list"
  assertions :: "assertion list"

record command_output =
  co_command :: string
  co_output :: "string option"
  co_errors :: "string list option"

record assertion_result =
  ar_command :: string
  ar_expectation :: "string option"
  ar_pass :: bool

record test_result =
  tr_testId :: nat
  tr_presentationNumber :: "nat option"
  tr_capabilities :: capabilities
  tr_commands :: "command_output list"
  tr_results :: "assertion_result list"

text \<open>\<open>a || b\<close> on optional strings.\<close>

definition js_or :: "string option \<Rightarrow> string option \<Rightarrow> string option" where
  "js_or a b = (if truthy a then a else b)"

text \<open>The branch of \<open>run\<close> for a command that passed validation, up to the spoken output
  of its keys.\<close>

definition run_valid :: "runner \<Rightarrow> test \<Rightarrow> command \<Rightarrow> command \<Rightarrow> (string list) operation" where
  "run_valid r t c validCommand =
     await (collectSpeech (afterNav (timesOption r)) (openPage r (referencePage (target t))))
       (\<lambda>_. await
          (if truthy (settings c) then ensureSettings r (the (settings c))
           else if truthy (mode (target t)) then ensureMode r (the (mode (target t)))
           else return ())
       (\<lambda>_. await
          (collectSpeech (afterKeys (timesOption r))
             (runner_sendKeys (atKeysFromCommand validCommand)))
       (\<lambda>spokenOutput. await
          (collectSpeech (afterNav (timesOption r)) (perform [Log OPEN_PAGE, Navigate AboutBlank]))
       (\<lambda>_. return spokenOutput))))"

text \<open>The loop of \<open>run\<close> over \<open>test.commands\<close>, with the arrays \<open>commandsOutput\<close> and
  \<open>results\<close> as accumulators.\<close>

fun run_loop ::
  "key_table \<Rightarrow> runner \<Rightarrow> test \<Rightarrow> command list \<Rightarrow> command_output list \<Rightarrow> assertion_result list
     \<Rightarrow> (command_output list \<times> assertion_result list) operation" where
  "run_loop tbl r t [] commandsOutput results = return (commandsOutput, results)"
| "run_loop tbl r t (c # later) commandsOutput results =
     (case v_value (validateKeysFromCommand tbl c) of
        Some validCommand \<Rightarrow>
          await (run_valid r t c validCommand) (\<lambda>spokenOutput.
            run_loop tbl r t later
              (commandsOutput @
                 [\<lparr>co_command = cmd_id c, co_output = Some (join [CHR 0x0A] spokenOutput),
                   co_errors = None\<rparr>])
              (results @
                 map (\<lambda>a. \<lparr>ar_command = cmd_id c,
                            ar_expectation = js_or (expectation a) (assertionStatement a),
                            ar_pass = True\<rparr>) (assertions t)))
      | None \<Rightarrow>
          await (perform [Log INVALID_KEYS]) (\<lambda>_.
            run_loop tbl r t later
              (commandsOutput @
                 [\<lparr>co_command = cmd_id c, co_output = None,
                   co_errors = v_errors (validateKeysFromCommand tbl c)\<rparr>])
              (results @
                 map (\<lambda>a. \<lparr>ar_command = cmd_id c, ar_expectation = expectation a,
                            ar_pass = False\<rparr>) (assertions t))))"

definition run :: "key_table \<Rightarrow> runner \<Rightarrow> test \<Rightarrow> test_result operation" where
  "run tbl r t =
     await (perform [Log CAPABILITIES, Log START_TEST, Log OPEN_PAGE, Navigate AboutBlank])
       (\<lambda>_. await (run_loop tbl r t (commands t) [] [])
       (\<lambda>(commandsOutput, results).
          return \<lparr>tr_testId = testId (info t),
                  tr_presentationNumber = presentationNumber (info t),
                  tr_capabilities = collectedCapabilities r,
                  tr_commands = commandsOutput,
                  tr_results = results\<rparr>))"

section \<open>Notions for stating the properties\<close>

text \<open>The request that the body of the inner loop of \<open>sendKeys\<close> sends for a chord.\<close>

definition pressKeys :: "ATKeyChord \<Rightarrow> at_command" where
  "pressKeys chord =
     \<lparr>rpc_method = ''interaction.pressKeys'', rpc_params = PressKeys (map mapped (keys chord))\<rparr>"

text \<open>An operation is \<open>steady\<close> when it only adds events, none of them a request for
  capabilities.\<close>

definition quiet :: "event list \<Rightarrow> bool" where
  "quiet es \<longleftrightarrow> BrowserGetCapabilities \<notin> set es \<and> ATGetCapabilities \<notin> set es"

definition steady :: "'a operation \<Rightarrow> bool" where
  "steady m \<longleftrightarrow> (\<forall>w. \<exists>es. events (snd (m w)) = events w @ es \<and> quiet es)"

text \<open>One attempt of \<open>pressKeysToToggleSetting\<close>: the keys are sent and the speech of the
  mode switch window is collected. A desired response is \<open>heard\<close> in the captured lines when
  one of them, trimmed, is the response up to case: the test of the source.\<close>

definition attempt :: "runner \<Rightarrow> ATKeySequence \<Rightarrow> (string list) operation" where
  "attempt r s = collectSpeech (modeSwitch (timesOption r)) (runner_sendKeys s)"

definition heard :: "string \<Rightarrow> string list \<Rightarrow> bool" where
  "heard desiredResponse lines \<longleftrightarrow>
     list_ex (\<lambda>line. toLowerCase (trim line) = toLowerCase desiredResponse) lines"

text \<open>A command is \<open>valid\<close> when validation returns it. \<open>results_of\<close> are the assertion
  results of a command and \<open>output_of\<close> relates a command to its output, as the
  specification words them. \<open>group_of\<close> relates a command output to the assertion results
  that belong to it: one per assertion of the test, each naming the command of the
  output, and failing exactly when the output carries errors.\<close>

definition valid :: "key_table \<Rightarrow> command \<Rightarrow> bool" where
  "valid tbl c \<longleftrightarrow> v_value (validateKeysFromCommand tbl c) \<noteq> None"

definition results_of :: "key_table \<Rightarrow> test \<Rightarrow> command \<Rightarrow> assertion_result list" where
  "results_of tbl t c =
     map (\<lambda>a. \<lparr>ar_command = cmd_id c,
                ar_expectation = (if valid tbl c then js_or (expectation a) (assertionStatement a)
                                  else expectation a),
                ar_pass = valid tbl c\<rparr>) (assertions t)"

definition output_of :: "key_table \<Rightarrow> command \<Rightarrow> command_output \<Rightarrow> bool" where
  "output_of tbl c out \<longleftrightarrow>
     co_command out = cmd_id c \<and>
     (if valid tbl c then co_output out \<noteq> None \<and> co_errors out = None
      else co_output out = None \<and> co_errors out = v_errors (validateKeysFromCommand tbl c))"

definition group_of :: "test \<Rightarrow> command_output \<Rightarrow> assertion_result list \<Rightarrow> bool" where
  "group_of t out g \<longleftrightarrow>
     length g = length (assertions t) \<and>
     list_all (\<lambda>x. ar_command x = co_command out \<and> ar_pass x = (co_errors out = None)) g"

text \<open>A lower case word, and a text that ends where a word may begin: it is empty or
  its last character is neither a letter nor a digit.\<close>

definition lower_word :: "string \<Rightarrow> bool" where
  "lower_word w \<longleftrightarrow> w \<noteq> [] \<and> (\<forall>c\<in>set w. is_lower c)"

definition open_end :: "string \<Rightarrow> bool" where
  "open_end a \<longleftrightarrow> a = [] \<or> \<not> is_alnum (last a)"

text \<open>What is asked of the key table: every name it recognizes consists of word
  characters and begins neither with \<open>OR\<close> nor with \<open>FOLLOWED\<close>. An id is \<open>forbidden\<close>
  when it contains \<open>/\<close>, \<open>(\<close> or \<open>)\<close>, or matches \<open>/\bor\b/\<close> or \<open>/\bfollowed\b/\<close>.\<close>

definition key_names_plain :: "key_table \<Rightarrow> bool" where
  "key_names_plain tbl \<longleftrightarrow>
     (\<forall>name. recognized tbl name \<longrightarrow>
        (\<forall>c\<in>set name. is_word_char c) \<and> \<not> startsWith name ''OR''
        \<and> \<not> startsWith name ''FOLLOWED'')"

definition forbidden :: "string \<Rightarrow> bool" where
  "forbidden i \<longleftrightarrow>
     CHR ''/'' \<in> set i \<or> CHR ''('' \<in> set i \<or> CHR '')'' \<in> set i
     \<or> test_word ''or'' i \<or> test_word ''followed'' i"

text \<open>The life of a runner: it is constructed, then runs tests one after the other,
  whatever their outcomes (which covers every way a host may go on after a failure).
  \<open>fetches\<close> counts the requests for capabilities made so far, to
  the browser driver and to the AT driver.\<close>

fun run_tests ::
  "key_table \<Rightarrow> runner \<Rightarrow> test list \<Rightarrow> world \<Rightarrow> (failure + test_result) list \<times> world" where
  "run_tests tbl r [] w = ([], w)"
| "run_tests tbl r (t # ts) w =
     (case run tbl r t w of
        (outcome, w') \<Rightarrow>
          (case run_tests tbl r ts w' of (outcomes, w'') \<Rightarrow> (outcome # outcomes, w'')))"

definition lifetime ::
  "key_table \<Rightarrow> times \<Rightarrow> test list \<Rightarrow> world \<Rightarrow> (failure + test_result) list \<times> world" where
  "lifetime tbl t tests w = (case DriverTestRunner t w of (r, w') \<Rightarrow> run_tests tbl r tests w')"

definition fetches :: "world \<Rightarrow> nat \<times> nat" where
  "fetches w = (count_list (events w) BrowserGetCapabilities, count_list (events w) ATGetCapabilities)"

section \<open>Scenarios\<close>

definition no_capabilities :: capabilities where
  "no_capabilities = \<lparr>atName = None, atVersion = None, browserName = None,
                       browserVersion = None, platformName = None\<rparr>"

definition nvda_capabilities :: capabilities where
  "nvda_capabilities = \<lparr>atName = Some ''NVDA'', atVersion = Some ''2024.1'',
     browserName = Some ''firefox'', browserVersion = Some ''125'', platformName = Some ''windows''\<rparr>"

definition some_times :: times where
  "some_times = \<lparr>afterNav = 1, afterKeys = 5, testSetup = 1, modeSwitch = 1\<rparr>"

definition ok :: "string \<Rightarrow> message" where
  "ok i = \<lparr>msg_id = Some i, msg_error = None\<rparr>"

definition replies :: "string list \<Rightarrow> message list" where
  "replies ids = map ok ids"

definition world_of :: "capabilities \<Rightarrow> message list \<Rightarrow> string list list \<Rightarrow> world" where
  "world_of caps frames windows =
     \<lparr>nextId = 0, inbound = frames, closes = False, speech = map Some windows, clicks = [],
      reported = caps, events = []\<rparr>"

definition plain_runner :: runner where
  "plain_runner = \<lparr>timesOption = some_times, collectedCapabilities = no_capabilities\<rparr>"

definition nvda_runner :: runner where
  "nvda_runner = \<lparr>timesOption = some_times, collectedCapabilities = nvda_capabilities\<rparr>"

definition insert_space :: ATKeySequence where
  "insert_space = chord_of_names [''insert'', ''space'']"

definition command_A :: command where
  "command_A = \<lparr>cmd_id = ''c1'', keypresses = [\<lparr>kp_id = ''ENTER''\<rparr>], settings = None\<rparr>"

definition command_B :: command where
  "command_B = \<lparr>cmd_id = ''c2'', keypresses = [\<lparr>kp_id = ''A/B''\<rparr>], settings = None\<rparr>"

definition command_or :: command where
  "command_or = \<lparr>cmd_id = ''c3'', keypresses = [\<lparr>kp_id = ''ENTER''\<rparr>, \<lparr>kp_id = ''or+b''\<rparr>],
                  settings = None\<rparr>"

definition command_two_errors :: command where
  "command_two_errors =
     \<lparr>cmd_id = ''c4'', keypresses = [\<lparr>kp_id = ''A/B''\<rparr>, \<lparr>kp_id = ''or+b''\<rparr>], settings = None\<rparr>"

definition test_AB :: test where
  "test_AB =
     \<lparr>info = \<lparr>testId = 1, task = ''navigate to button'', presentationNumber = None\<rparr>,
      target = \<lparr>referencePage = ''reference/button.html'', mode = None\<rparr>,
      commands = [command_A, command_B],
      assertions = [\<lparr>expectation = None, assertionStatement = Some ''Role button is conveyed''\<rparr>,
                    \<lparr>expectation = None, assertionStatement = Some ''Name is conveyed''\<rparr>]\<rparr>"

definition world_AB :: world where
  "world_AB = world_of no_capabilities (replies [''0'']) [[], [''button, OK''], []]"

definition run_AB :: "(failure + test_result) \<times> world" where
  "run_AB = run (map_of seleniumKeysMap) plain_runner test_AB world_AB"

definition life_AB :: "(failure + test_result) list \<times> world" where
  "life_AB = lifetime (map_of seleniumKeysMap) some_times [test_AB, test_AB]
               (world_of nvda_capabilities (replies [''0'', ''1'']) [])"

definition world_heard :: world where
  "world_heard = world_of nvda_capabilities (replies [''0'', ''1'']) [[''Browse mode '']]"

definition world_unheard :: world where
  "world_unheard =
     world_of nvda_capabilities (replies [''0'', ''1'', ''2'', ''3''])
       [[''Focus mode''], ['' beep'', ''Focus mode '']]"

definition world_untrimmed :: world where
  "world_untrimmed =
     world_of nvda_capabilities (replies [''0'', ''1'', ''2'', ''3'']) [[''Browse mode ''], []]"

definition world_toggle :: world where
  "world_toggle =
     world_of nvda_capabilities (replies [''0'', ''1'', ''2'', ''3'', ''4'', ''5''])
       [[''Focus mode''], [''Browse mode'']]"

definition world_silent :: world where
  "world_silent = world_of nvda_capabilities (replies [''0'']) []"

definition world_rejecting :: world where
  "world_rejecting =
     world_of nvda_capabilities [\<lparr>msg_id = Some ''0'', msg_error = Some ''unknown setting''\<rparr>] []"

section \<open>Flattening of sequences\<close>

lemma sequence_loop_append:
  "sequence_loop normalized (xs @ ys) = sequence_loop (sequence_loop normalized xs) ys"
  by (induction normalized xs rule: sequence_loop.induct) simp_all

text \<open>
  Claim C7. \<open>ATKey.sequence\<close> flattens nested sequences: for all items \<open>a\<close>, \<open>b\<close> and \<open>c\<close>
  (keys, chords or sequences, so in particular keys or chords \<open>a\<close>, \<open>b\<close> and a chord \<open>c\<close>),
  \<open>sequence(sequence(a, b), c)\<close> is \<open>sequence(a, b, c)\<close>: the same chords in the same order.
\<close>

theorem sequence_flattens:
  "ATKey_sequence [Seq (ATKey_sequence [a, b]), c] = ATKey_sequence [a, b, c]"
proof -
  have "sequence_loop [] ([a, b] @ [c]) = sequence_loop (sequence_loop [] [a, b]) [c]"
    by (rule sequence_loop_append)
  then show ?thesis
    by (simp add: ATKey_sequence_def)
qed

section \<open>Validation\<close>

lemma validate_loop_concat:
  "validate_loop tbl errors kps = errors @ concat (map (\<lambda>kp. keypress_errors tbl (kp_id kp)) kps)"
  by (induction kps arbitrary: errors) simp_all

text \<open>
  Claim C3. For every command and key table, \<open>validateKeysFromCommand\<close> returns either the
  command as \<open>value\<close> and no \<open>errors\<close>, or \<open>errors\<close> and no \<open>value\<close>; in the second case the
  list is not empty and it is the list of all errors of all keypresses of the command, in
  order (validation does not stop at the first error); in the first case no keypress has
  an error.
\<close>

theorem validation_outcome:
  "(let all_errors = concat (map (\<lambda>kp. keypress_errors tbl (kp_id kp)) (keypresses c)) in
     (validateKeysFromCommand tbl c = \<lparr>v_value = Some c, v_errors = None\<rparr> \<and> all_errors = []) \<or>
     (validateKeysFromCommand tbl c = \<lparr>v_value = None, v_errors = Some all_errors\<rparr>
        \<and> all_errors \<noteq> []))"
  by (simp add: validateKeysFromCommand_def validate_loop_concat Let_def)

text \<open>At a command with two faulty keypresses: the two errors of \<open>A/B\<close> and the error of
  \<open>or+b\<close> are all returned.\<close>

theorem validation_outcome_witness:
  "validateKeysFromCommand (map_of seleniumKeysMap) command_two_errors =
     \<lparr>v_value = None,
      v_errors = Some (keypress_errors (map_of seleniumKeysMap) ''A/B''
                       @ keypress_errors (map_of seleniumKeysMap) ''or+b'')\<rparr>
   \<and> length (keypress_errors (map_of seleniumKeysMap) ''A/B'') = 2
   \<and> length (keypress_errors (map_of seleniumKeysMap) ''or+b'') = 1"
proof -
  have a: "length (keypress_errors (map_of seleniumKeysMap) ''A/B'') = 2" by code_simp
  have b: "length (keypress_errors (map_of seleniumKeysMap) ''or+b'') = 1" by code_simp
  from a have ne: "keypress_errors (map_of seleniumKeysMap) ''A/B'' \<noteq> []" by auto
  from validation_outcome [of "map_of seleniumKeysMap" command_two_errors] ne
  have "validateKeysFromCommand (map_of seleniumKeysMap) command_two_errors =
     \<lparr>v_value = None,
      v_errors = Some (keypress_errors (map_of seleniumKeysMap) ''A/B''
                       @ keypress_errors (map_of seleniumKeysMap) ''or+b'')\<rparr>"
    by (simp add: command_two_errors_def Let_def)
  with a b show ?thesis by blast
qed

subsection \<open>Occurrences of a word survive the rewriting of an id\<close>

lemma startsWith_prefix: "startsWith s p \<longleftrightarrow> prefix p s"
  by (induction s p rule: startsWith.induct) auto

lemma startsWith_decomp: "startsWith s p \<Longrightarrow> s = p @ drop (length p) s"
  by (auto simp: startsWith_prefix prefix_def)

text \<open>A match that begins in \<open>a\<close> cannot reach into a word whose first character does not
  occur in the pattern.\<close>

lemma startsWith_within:
  assumes "startsWith (a @ w @ b) p" and "w \<noteq> []" and "hd w \<notin> set p"
  shows "startsWith a p"
proof (cases "prefix p a")
  case True
  then show ?thesis by (simp add: startsWith_prefix)
next
  case False
  define s where "s = w @ b"
  from assms(1) have "prefix p (a @ s)" by (simp add: startsWith_prefix s_def)
  with False obtain us where us: "p = a @ us" "prefix us s"
    by (auto simp only: prefix_append)
  from False us(1) have "us \<noteq> []" by auto
  then obtain u us' where u: "us = u # us'" by (cases us) auto
  from assms(2) obtain c w' where w: "w = c # w'" by (cases w) auto
  from us(2) u w have "u = c" by (simp add: s_def)
  with us(1) u have "c \<in> set p" by simp
  with assms(3) w show ?thesis by simp
qed

lemma lower_not_special:
  assumes "is_lower c"
  shows "c \<notin> set ''PAGE_DOWN''" "c \<notin> set ''PAGE_UP''" "c \<notin> set ''_ARROW''" "c \<noteq> CHR ''+''"
    "c \<noteq> CHR ''_''" "c \<noteq> CHR ''P''"
  using assms by (auto simp: is_lower_def)

lemma lower_word_hd:
  assumes "lower_word w"
  shows "hd w \<notin> set ''PAGE_DOWN''" "hd w \<notin> set ''PAGE_UP''" "hd w \<notin> set ''_ARROW''"
proof -
  from assms have "is_lower (hd w)" by (cases w) (auto simp: lower_word_def)
  then show "hd w \<notin> set ''PAGE_DOWN''" "hd w \<notin> set ''PAGE_UP''" "hd w \<notin> set ''_ARROW''"
    by (rule lower_not_special)+
qed

lemma replace_page_lower:
  "\<forall>c\<in>set w. is_lower c \<Longrightarrow> replace_page (w @ b) = w @ replace_page b"
proof (induction w)
  case Nil
  show ?case by simp
next
  case (Cons c w)
  then have "is_lower c" by simp
  then have "c \<noteq> CHR ''P''" by (rule lower_not_special)
  with Cons show ?case by simp
qed

lemma replace_page_keeps:
  assumes w: "lower_word w"
  shows "open_end a \<Longrightarrow>
    \<exists>a' b'. replace_page (a @ w @ b) = a' @ w @ b' \<and> open_end a' \<and> (a' = [] \<longleftrightarrow> a = [])"
proof (induction a)
  case Nil
  from w have "replace_page (w @ b) = w @ replace_page b"
    by (simp add: replace_page_lower lower_word_def)
  then show ?case by (auto simp: open_end_def)
next
  case (Cons x a)
  let ?s = "(x # a) @ w @ b"
  from w have wne: "w \<noteq> []" by (simp add: lower_word_def)
  have tail: "open_end a" using Cons.prems by (cases a) (auto simp: open_end_def)
  consider (down) "startsWith ?s ''PAGE_DOWN''"
    | (up) "\<not> startsWith ?s ''PAGE_DOWN''" "startsWith ?s ''PAGE_UP''"
    | (none) "\<not> startsWith ?s ''PAGE_DOWN''" "\<not> startsWith ?s ''PAGE_UP''" by blast
  then show ?case
  proof cases
    case down
    from startsWith_within [OF down wne lower_word_hd(1) [OF w]]
    have "startsWith (x # a) ''PAGE_DOWN''" .
    from startsWith_decomp [OF this] obtain a2 where a2: "x # a = ''PAGE_DOWN'' @ a2" by auto
    have "a2 \<noteq> []"
    proof
      assume "a2 = []"
      with a2 have "last (x # a) = CHR ''N''" by simp
      moreover have "is_alnum (CHR ''N'')" by (simp add: is_alnum_def is_upper_def)
      ultimately show False using Cons.prems by (simp add: open_end_def)
    qed
    with a2 have l: "last (''PAGEDOWN'' @ a2) = last (x # a)" by simp
    have "replace_page ?s = ''PAGEDOWN'' @ drop 9 ?s"
      using down by (simp del: startsWith.simps)
    also have "drop 9 ?s = a2 @ w @ b" unfolding a2 by simp
    finally have "replace_page ?s = (''PAGEDOWN'' @ a2) @ w @ b" by simp
    moreover have "open_end (''PAGEDOWN'' @ a2)"
      using Cons.prems l unfolding open_end_def by (metis list.distinct(1))
    ultimately show ?thesis by blast
  next
    case up
    from startsWith_within [OF up(2) wne lower_word_hd(2) [OF w]]
    have "startsWith (x # a) ''PAGE_UP''" .
    from startsWith_decomp [OF this] obtain a2 where a2: "x # a = ''PAGE_UP'' @ a2" by auto
    have "a2 \<noteq> []"
    proof
      assume "a2 = []"
      with a2 have "last (x # a) = CHR ''P''" by simp
      moreover have "is_alnum (CHR ''P'')" by (simp add: is_alnum_def is_upper_def)
      ultimately show False using Cons.prems by (simp add: open_end_def)
    qed
    with a2 have l: "last (''PAGEUP'' @ a2) = last (x # a)" by simp
    have "replace_page ?s = ''PAGEUP'' @ drop 7 ?s"
      using up by (simp del: startsWith.simps)
    also have "drop 7 ?s = a2 @ w @ b" unfolding a2 by simp
    finally have "replace_page ?s = (''PAGEUP'' @ a2) @ w @ b" by simp
    moreover have "open_end (''PAGEUP'' @ a2)"
      using Cons.prems l unfolding open_end_def by (metis list.distinct(1))
    ultimately show ?thesis by blast
  next
    case none
    then have step: "replace_page ?s = x # replace_page (a @ w @ b)"
      by (simp del: startsWith.simps)
    from Cons.IH [OF tail] obtain a' b' where
      IH: "replace_page (a @ w @ b) = a' @ w @ b'" "open_end a'" "a' = [] \<longleftrightarrow> a = []" by blast
    have "open_end (x # a')"
    proof (cases "a = []")
      case True
      with IH Cons.prems show ?thesis by (simp add: open_end_def)
    next
      case False
      with IH show ?thesis by (simp add: open_end_def)
    qed
    with step IH(1) have "replace_page ?s = (x # a') @ w @ b'" "open_end (x # a')" by simp_all
    then show ?thesis by blast
  qed
qed

lemma replace_first_plus_lower:
  "\<forall>c\<in>set w. is_lower c \<Longrightarrow> replace_first_plus (w @ b) = w @ replace_first_plus b"
proof (induction w)
  case Nil
  show ?case by simp
next
  case (Cons c w)
  then have "is_lower c" by simp
  then have "c \<noteq> CHR ''+''" by (rule lower_not_special)
  with Cons show ?case by simp
qed

lemma replace_first_plus_keeps:
  assumes w: "lower_word w"
  shows "open_end a \<Longrightarrow>
    \<exists>a' b'. replace_first_plus (a @ w @ b) = a' @ w @ b' \<and> open_end a' \<and> (a' = [] \<longleftrightarrow> a = [])"
proof (induction a)
  case Nil
  from w have "replace_first_plus (w @ b) = w @ replace_first_plus b"
    by (simp add: replace_first_plus_lower lower_word_def)
  then show ?case by (auto simp: open_end_def)
next
  case (Cons x a)
  have tail: "open_end a" using Cons.prems by (cases a) (auto simp: open_end_def)
  show ?case
  proof (cases "x = CHR ''+''")
    case True
    then have "replace_first_plus ((x # a) @ w @ b) = (CHR ''_'' # a) @ w @ b" by simp
    moreover have "open_end (CHR ''_'' # a)"
      using tail by (cases a) (auto simp: open_end_def is_alnum_def is_digit_def is_upper_def is_lower_def)
    ultimately show ?thesis by blast
  next
    case False
    then have step: "replace_first_plus ((x # a) @ w @ b) = x # replace_first_plus (a @ w @ b)"
      by simp
    from Cons.IH [OF tail] obtain a' b' where
      IH: "replace_first_plus (a @ w @ b) = a' @ w @ b'" "open_end a'" "a' = [] \<longleftrightarrow> a = []"
      by blast
    have "open_end (x # a')"
    proof (cases "a = []")
      case True
      with IH Cons.prems show ?thesis by (simp add: open_end_def)
    next
      case False
      with IH show ?thesis by (simp add: open_end_def)
    qed
    with step IH(1) have "replace_first_plus ((x # a) @ w @ b) = (x # a') @ w @ b'"
      "open_end (x # a')" by simp_all
    then show ?thesis by blast
  qed
qed

lemma remove_ARROW_lower:
  "\<forall>c\<in>set w. is_lower c \<Longrightarrow> remove_ARROW (w @ b) = w @ remove_ARROW b"
proof (induction w)
  case Nil
  show ?case by simp
next
  case (Cons c w)
  then have "is_lower c" by simp
  then have "c \<noteq> CHR ''_''" by (rule lower_not_special)
  with Cons show ?case by simp
qed

lemma remove_ARROW_keeps:
  assumes w: "lower_word w"
  shows "open_end a \<Longrightarrow>
    \<exists>a' b'. remove_ARROW (a @ w @ b) = a' @ w @ b' \<and> open_end a' \<and> (a' = [] \<longleftrightarrow> a = [])"
proof (induction a rule: length_induct)
  case (1 a)
  from w have wne: "w \<noteq> []" by (simp add: lower_word_def)
  show ?case
  proof (cases a)
    case Nil
    from w have "remove_ARROW (w @ b) = w @ remove_ARROW b"
      by (simp add: remove_ARROW_lower lower_word_def)
    with Nil have "remove_ARROW (a @ w @ b) = [] @ w @ remove_ARROW b \<and> open_end []
        \<and> (([]::string) = [] \<longleftrightarrow> a = [])"
      by (simp add: open_end_def)
    then show ?thesis by blast
  next
    case (Cons x a1)
    let ?s = "(x # a1) @ w @ b"
    have tail: "open_end a1" using 1(2) Cons by (cases a1) (auto simp: open_end_def)
    show ?thesis
    proof (cases "startsWith ?s ''_ARROW''")
      case True
      from startsWith_within [OF True wne lower_word_hd(3) [OF w]]
      have "startsWith (x # a1) ''_ARROW''" .
      from startsWith_decomp [OF this] obtain a2 where a2: "x # a1 = ''_ARROW'' @ a2" by auto
      have ne: "a2 \<noteq> []"
      proof
        assume "a2 = []"
        with a2 have "last (x # a1) = CHR ''W''" by simp
        moreover have "is_alnum (CHR ''W'')" by (simp add: is_alnum_def is_upper_def)
        ultimately show False using 1(2) Cons by (simp add: open_end_def)
      qed
      with a2 have l: "last a2 = last a" using Cons by simp
      from a2 Cons have len: "length a2 < length a" by simp
      have o2: "open_end a2" using 1(2) l ne Cons by (simp add: open_end_def)
      have unfold: "remove_ARROW ?s = remove_ARROW (drop 5 (a1 @ w @ b))"
        using True by (simp del: startsWith.simps)
      from a2 have "a1 = ''ARROW'' @ a2" by simp
      then have "drop 5 (a1 @ w @ b) = a2 @ w @ b" by simp
      with unfold have step: "remove_ARROW ?s = remove_ARROW (a2 @ w @ b)" by simp
      from 1(1) [rule_format, OF len o2] obtain a' b' where
        IH: "remove_ARROW (a2 @ w @ b) = a' @ w @ b'" "open_end a'" "a' = [] \<longleftrightarrow> a2 = []"
        by blast
      from step IH(1) Cons have "remove_ARROW (a @ w @ b) = a' @ w @ b'" by simp
      moreover from IH(3) ne Cons have "a' = [] \<longleftrightarrow> a = []" by simp
      ultimately have "remove_ARROW (a @ w @ b) = a' @ w @ b' \<and> open_end a'
          \<and> (a' = [] \<longleftrightarrow> a = [])"
        using IH(2) by simp
      then show ?thesis by blast
    next
      case False
      then have step: "remove_ARROW ?s = x # remove_ARROW (a1 @ w @ b)"
        by (simp del: startsWith.simps)
      have "length a1 < length a" using Cons by simp
      from 1(1) [rule_format, OF this tail] obtain a' b' where
        IH: "remove_ARROW (a1 @ w @ b) = a' @ w @ b'" "open_end a'" "a' = [] \<longleftrightarrow> a1 = []"
        by blast
      have "open_end (x # a')"
      proof (cases "a1 = []")
        case True
        with IH 1(2) Cons show ?thesis by (simp add: open_end_def)
      next
        case False
        with IH show ?thesis by (simp add: open_end_def)
      qed
      with step IH(1) Cons have "remove_ARROW (a @ w @ b) = (x # a') @ w @ b' \<and>
          open_end (x # a') \<and> (x # a' = [] \<longleftrightarrow> a = [])" by simp
      then show ?thesis by blast
    qed
  qed
qed

lemma normalize_id_keeps:
  assumes w: "lower_word w" and a: "open_end a"
  shows "\<exists>a' b'. normalize_id (a @ w @ b) = a' @ w @ b' \<and> open_end a'"
proof -
  from replace_page_keeps [OF w a, of b] obtain a1 b1 where
    1: "replace_page (a @ w @ b) = a1 @ w @ b1" "open_end a1" by blast
  from replace_first_plus_keeps [OF w 1(2), of b1] obtain a2 b2 where
    2: "replace_first_plus (a1 @ w @ b1) = a2 @ w @ b2" "open_end a2" by blast
  from remove_ARROW_keeps [OF w 2(2), of b2] obtain a3 b3 where
    3: "remove_ARROW (a2 @ w @ b2) = a3 @ w @ b3" "open_end a3" by blast
  from 1 2 3 have "normalize_id (a @ w @ b) = a3 @ w @ b3" by (simp add: normalize_id_def)
  with 3(2) show ?thesis by blast
qed

lemma word_at_decomp:
  assumes "word_at w s"
  shows "\<exists>b. s = w @ b"
proof -
  from assms have "startsWith s w" by (simp add: word_at_def)
  from startsWith_decomp [OF this] show ?thesis by (rule exI)
qed

lemma test_word_from_occurs:
  "test_word_from prev w s \<Longrightarrow>
     \<exists>a b. s = a @ w @ b \<and> (if a = [] then \<not> prev else \<not> is_word_char (last a))"
proof (induction s arbitrary: prev)
  case Nil
  then show ?case by simp
next
  case (Cons c s)
  show ?case
  proof (cases "\<not> prev \<and> word_at w (c # s)")
    case True
    then have "word_at w (c # s)" by simp
    from word_at_decomp [OF this] obtain b where "c # s = w @ b" by blast
    with True have "c # s = [] @ w @ b \<and> (if [] = ([]::string) then \<not> prev else \<not> is_word_char (last []))"
      by simp
    then show ?thesis by blast
  next
    case False
    with Cons.prems have "test_word_from (is_word_char c) w s" by auto
    from Cons.IH [OF this] obtain a b where
      ab: "s = a @ w @ b" "if a = [] then \<not> is_word_char c else \<not> is_word_char (last a)"
      by blast
    then have "c # s = (c # a) @ w @ b \<and>
        (if c # a = [] then \<not> prev else \<not> is_word_char (last (c # a)))"
      by (auto split: if_splits)
    then show ?thesis by blast
  qed
qed

lemma test_word_occurs:
  assumes "test_word w s"
  shows "\<exists>a b. s = a @ w @ b \<and> open_end a"
proof -
  from assms have "test_word_from False w s" by (simp add: test_word_def)
  from test_word_from_occurs [OF this] obtain a b where
    "s = a @ w @ b" "if a = [] then True else \<not> is_word_char (last a)" by auto
  then have "s = a @ w @ b" "open_end a"
    by (auto simp: open_end_def is_word_char_def split: if_splits)
  then show ?thesis by blast
qed

subsection \<open>Characters survive the rewriting of an id\<close>

lemma replace_page_keeps_char:
  "c \<in> set s \<Longrightarrow> c \<noteq> CHR ''_'' \<Longrightarrow> c \<in> set (replace_page s)"
proof (induction s rule: replace_page.induct)
  case 1
  then show ?case by simp
next
  case (2 x xs)
  let ?s = "x # xs"
  consider (down) "startsWith ?s ''PAGE_DOWN''"
    | (up) "\<not> startsWith ?s ''PAGE_DOWN''" "startsWith ?s ''PAGE_UP''"
    | (none) "\<not> startsWith ?s ''PAGE_DOWN''" "\<not> startsWith ?s ''PAGE_UP''" by blast
  then show ?case
  proof cases
    case down
    from startsWith_decomp [OF down] obtain rest where rest: "?s = ''PAGE_DOWN'' @ rest" by auto
    have "replace_page ?s = ''PAGEDOWN'' @ drop 9 ?s"
      using down by (simp del: startsWith.simps)
    also have "drop 9 ?s = rest" unfolding rest by simp
    finally have rp: "replace_page ?s = ''PAGEDOWN'' @ rest" .
    have "c \<in> set (''PAGE_DOWN'' @ rest)" using 2(2) unfolding rest .
    with 2(3) have "c \<in> set (''PAGEDOWN'' @ rest)" by auto
    then show ?thesis unfolding rp .
  next
    case up
    from startsWith_decomp [OF up(2)] obtain rest where rest: "?s = ''PAGE_UP'' @ rest" by auto
    have "replace_page ?s = ''PAGEUP'' @ drop 7 ?s"
      using up by (simp del: startsWith.simps)
    also have "drop 7 ?s = rest" unfolding rest by simp
    finally have rp: "replace_page ?s = ''PAGEUP'' @ rest" .
    have "c \<in> set (''PAGE_UP'' @ rest)" using 2(2) unfolding rest .
    with 2(3) have "c \<in> set (''PAGEUP'' @ rest)" by auto
    then show ?thesis unfolding rp .
  next
    case none
    then have rp: "replace_page ?s = x # replace_page xs" by (simp del: startsWith.simps)
    show ?thesis
    proof (cases "c = x")
      case True
      then show ?thesis unfolding rp by simp
    next
      case False
      with 2(2) have "c \<in> set xs" by simp
      from 2(1) [OF none this 2(3)] show ?thesis unfolding rp by simp
    qed
  qed
qed

lemma replace_first_plus_keeps_char:
  "c \<in> set s \<Longrightarrow> c \<noteq> CHR ''+'' \<Longrightarrow> c \<in> set (replace_first_plus s)"
  by (induction s) auto

lemma remove_ARROW_keeps_char:
  "c \<in> set s \<Longrightarrow> c \<notin> set ''_ARROW'' \<Longrightarrow> c \<in> set (remove_ARROW s)"
proof (induction s rule: remove_ARROW.induct)
  case 1
  then show ?case by simp
next
  case (2 x xs)
  let ?s = "x # xs"
  show ?case
  proof (cases "startsWith ?s ''_ARROW''")
    case True
    from startsWith_decomp [OF True] obtain rest where rest: "?s = ''_ARROW'' @ rest" by auto
    then have xs: "xs = ''ARROW'' @ rest" by simp
    have rp: "remove_ARROW ?s = remove_ARROW (drop 5 xs)"
      using True by (simp del: startsWith.simps)
    have dr: "drop 5 xs = rest" unfolding xs by simp
    have "c \<in> set (''_ARROW'' @ rest)" using 2(3) unfolding rest .
    with 2(4) have "c \<in> set rest" by auto
    then have "c \<in> set (drop 5 xs)" unfolding dr .
    from 2(1) [OF True this 2(4)] show ?thesis unfolding rp .
  next
    case False
    then have rp: "remove_ARROW ?s = x # remove_ARROW xs" by (simp del: startsWith.simps)
    show ?thesis
    proof (cases "c = x")
      case True
      then show ?thesis unfolding rp by simp
    next
      case ne: False
      with 2(3) have "c \<in> set xs" by simp
      from 2(2) [OF False this 2(4)] show ?thesis unfolding rp by simp
    qed
  qed
qed

lemma normalize_id_keeps_char:
  assumes "c \<in> set s" and "c \<notin> set ''_+ARROW''"
  shows "c \<in> set (normalize_id s)"
proof -
  from assms have "c \<in> set (replace_page s)" by (simp add: replace_page_keeps_char)
  with assms have "c \<in> set (replace_first_plus (replace_page s))"
    by (simp add: replace_first_plus_keeps_char)
  with assms show ?thesis
    unfolding normalize_id_def by (simp add: remove_ARROW_keeps_char)
qed

subsection \<open>The parts of an id\<close>

lemma split_not_Nil: "split sep s \<noteq> []"
  by (induction s) (auto split: list.splits)

lemma hd_split: "hd (split sep s) = takeWhile (\<lambda>c. \<not> sep c) s"
proof (induction s)
  case Nil
  show ?case by simp
next
  case (Cons c s)
  then show ?case using split_not_Nil [of sep s] by (auto split: list.splits)
qed

lemma split_free_prefix:
  "\<forall>c\<in>set a. \<not> sep c \<Longrightarrow> hd (split sep (a @ s)) = a @ takeWhile (\<lambda>c. \<not> sep c) s"
  by (simp add: hd_split takeWhile_append2)

lemma split_at_separator:
  "sep c \<Longrightarrow> split sep (a @ c # s) = split sep a @ split sep s"
proof (induction a)
  case Nil
  then show ?case by simp
next
  case (Cons x a)
  from split_not_Nil [of sep a] obtain p ps where "split sep a = p # ps"
    by (cases "split sep a") auto
  with Cons show ?case by simp
qed

lemma last_separator:
  "(\<forall>c\<in>set a. \<not> sep c) \<or> (\<exists>a1 c a2. a = a1 @ c # a2 \<and> sep c \<and> (\<forall>c\<in>set a2. \<not> sep c))"
proof (induction a)
  case Nil
  show ?case by simp
next
  case (Cons x a)
  from Cons show ?case
  proof
    assume free: "\<forall>c\<in>set a. \<not> sep c"
    show ?thesis
    proof (cases "sep x")
      case True
      with free have "x # a = [] @ x # a \<and> sep x \<and> (\<forall>c\<in>set a. \<not> sep c)" by simp
      then show ?thesis by blast
    next
      case False
      with free show ?thesis by simp
    qed
  next
    assume "\<exists>a1 c a2. a = a1 @ c # a2 \<and> sep c \<and> (\<forall>c\<in>set a2. \<not> sep c)"
    then obtain a1 c a2 where "a = a1 @ c # a2" "sep c" "\<forall>c\<in>set a2. \<not> sep c" by blast
    then have "x # a = (x # a1) @ c # a2 \<and> sep c \<and> (\<forall>c\<in>set a2. \<not> sep c)" by simp
    then show ?thesis by blast
  qed
qed

text \<open>The part of \<open>a @ w @ b\<close> that holds \<open>w\<close>, when \<open>w\<close> has no separator.\<close>

lemma part_with_word:
  assumes w: "\<forall>c\<in>set w. \<not> sep c"
  shows "\<exists>a2 t. a2 @ w @ t \<in> set (split sep (a @ w @ b)) \<and> (\<forall>c\<in>set a2. \<not> sep c)
           \<and> (a2 = [] \<or> (a \<noteq> [] \<and> last a2 = last a))"
proof -
  let ?t = "takeWhile (\<lambda>c. \<not> sep c) b"
  have tw: "takeWhile (\<lambda>c. \<not> sep c) (w @ b) = w @ ?t"
    using w by (simp add: takeWhile_append2)
  from last_separator [of a sep] show ?thesis
  proof
    assume free: "\<forall>c\<in>set a. \<not> sep c"
    then have "hd (split sep (a @ (w @ b))) = a @ takeWhile (\<lambda>c. \<not> sep c) (w @ b)"
      by (rule split_free_prefix)
    with tw have "hd (split sep (a @ w @ b)) = a @ w @ ?t" by simp
    moreover have "hd (split sep (a @ w @ b)) \<in> set (split sep (a @ w @ b))"
      by (rule hd_in_set [OF split_not_Nil])
    ultimately have "a @ w @ ?t \<in> set (split sep (a @ w @ b)) \<and> (\<forall>c\<in>set a. \<not> sep c)
           \<and> (a = [] \<or> (a \<noteq> [] \<and> last a = last a))" using free by simp
    then show ?thesis by blast
  next
    assume "\<exists>a1 c a2. a = a1 @ c # a2 \<and> sep c \<and> (\<forall>c\<in>set a2. \<not> sep c)"
    then obtain a1 c a2 where a: "a = a1 @ c # a2" "sep c" and free: "\<forall>c\<in>set a2. \<not> sep c"
      by blast
    from a have "split sep (a @ w @ b) = split sep a1 @ split sep (a2 @ (w @ b))"
      by (simp add: split_at_separator)
    moreover have "hd (split sep (a2 @ (w @ b))) = a2 @ takeWhile (\<lambda>c. \<not> sep c) (w @ b)"
      using free by (rule split_free_prefix)
    moreover have "hd (split sep (a2 @ (w @ b))) \<in> set (split sep (a2 @ (w @ b)))"
      by (rule hd_in_set [OF split_not_Nil])
    ultimately have "a2 @ w @ ?t \<in> set (split sep (a @ w @ b))" using tw by simp
    moreover from a have "a2 = [] \<or> (a \<noteq> [] \<and> last a2 = last a)" by simp
    ultimately have "a2 @ w @ ?t \<in> set (split sep (a @ w @ b)) \<and> (\<forall>c\<in>set a2. \<not> sep c)
           \<and> (a2 = [] \<or> (a \<noteq> [] \<and> last a2 = last a))" using free by simp
    then show ?thesis by blast
  qed
qed

lemma lower_not_separator: "is_lower c \<Longrightarrow> \<not> is_separator c"
  by (auto simp: is_lower_def is_separator_def)

lemma upper_char_not_word: "\<not> is_word_char c \<Longrightarrow> \<not> is_word_char (upper_char c)"
proof (cases "is_lower_latin1 c")
  case True
  then have "192 \<le> (of_char c :: nat) - 32" and "(of_char c :: nat) - 32 < 256"
    unfolding is_lower_latin1_def by linarith+
  then have big: "192 \<le> (of_char (char_of ((of_char c :: nat) - 32)) :: nat)" by simp
  have "char_of ((of_char c :: nat) - 32) \<noteq> CHR ''_''"
  proof
    assume "char_of ((of_char c :: nat) - 32) = CHR ''_''"
    with big have "192 \<le> (of_char (CHR ''_'') :: nat)" by (simp only:)
    then show False by simp
  qed
  with big have "\<not> is_word_char (char_of ((of_char c :: nat) - 32))"
    by (simp add: is_word_char_def is_alnum_def is_digit_def is_upper_def is_lower_def
        del: of_char_of)
  with True show ?thesis by (simp add: upper_char_def)
next
  case False
  assume "\<not> is_word_char c"
  with False show ?thesis by (simp add: upper_char_def is_word_char_def is_alnum_def)
qed

lemma word_part_error:
  assumes w: "lower_word w" and len: "2 \<le> length w" and a: "open_end a"
    and names: "\<And>name. recognized tbl name \<Longrightarrow>
                  (\<forall>c\<in>set name. is_word_char c) \<and> \<not> startsWith name (toUpperCase w)"
  shows "\<exists>part\<in>set (split is_separator (a @ w @ b)). part_errors tbl i part \<noteq> []"
proof -
  from w have "\<forall>c\<in>set w. \<not> is_separator c"
    by (simp add: lower_word_def lower_not_separator)
  from part_with_word [OF this, of a b] obtain a2 t where
    part: "a2 @ w @ t \<in> set (split is_separator (a @ w @ b))" and
    free: "\<forall>c\<in>set a2. \<not> is_separator c" and
    edge: "a2 = [] \<or> (a \<noteq> [] \<and> last a2 = last a)" by blast
  let ?part = "a2 @ w @ t"
  have "\<not> recognized tbl (toUpperCase ?part)"
  proof
    assume "recognized tbl (toUpperCase ?part)"
    from names [OF this] have
      chars: "\<forall>c\<in>set (toUpperCase ?part). is_word_char c" and
      start: "\<not> startsWith (toUpperCase ?part) (toUpperCase w)" by simp_all
    show False
    proof (cases "a2 = []")
      case True
      then have "toUpperCase ?part = toUpperCase w @ toUpperCase t"
        by (simp add: toUpperCase_def)
      then have "startsWith (toUpperCase ?part) (toUpperCase w)"
        by (simp add: startsWith_prefix)
      with start show False ..
    next
      case False
      with edge have ne: "a \<noteq> []" and l: "last a2 = last a" by simp_all
      from a ne have na: "\<not> is_alnum (last a2)" by (simp add: open_end_def l)
      from False free have "\<not> is_separator (last a2)" by simp
      then have "last a2 \<noteq> CHR ''_''" by (auto simp: is_separator_def)
      with na have nw: "\<not> is_word_char (last a2)" by (simp add: is_word_char_def)
      from False have "last a2 \<in> set ?part" by simp
      then have "upper_char (last a2) \<in> set (toUpperCase ?part)"
        unfolding toUpperCase_def by (simp only: set_map) (rule imageI)
      moreover from nw have "\<not> is_word_char (upper_char (last a2))"
        by (rule upper_char_not_word)
      ultimately show False using chars by blast
    qed
  qed
  moreover from len have "length ?part \<noteq> 1" by simp
  ultimately have "part_errors tbl i ?part \<noteq> []" by (simp add: part_errors_def)
  with part show ?thesis by blast
qed

lemma forbidden_keypress_errors:
  assumes tbl: "key_names_plain tbl" and bad: "forbidden raw"
  shows "keypress_errors tbl raw \<noteq> []"
proof -
  have word: "keypress_errors tbl raw \<noteq> []"
    if t: "test_word w raw" and w: "lower_word w" and len: "2 \<le> length w"
      and up: "toUpperCase w = ''OR'' \<or> toUpperCase w = ''FOLLOWED''" for w
  proof -
    from test_word_occurs [OF t] obtain a b where "raw = a @ w @ b" "open_end a" by blast
    with normalize_id_keeps [OF w, of a b] obtain a' b' where
      n: "normalize_id raw = a' @ w @ b'" and a': "open_end a'" by auto
    have "\<exists>part\<in>set (split is_separator (a' @ w @ b')).
            part_errors tbl (normalize_id raw) part \<noteq> []"
    proof (rule word_part_error [OF w len a'])
      fix name
      assume "recognized tbl name"
      with tbl up show "(\<forall>c\<in>set name. is_word_char c) \<and> \<not> startsWith name (toUpperCase w)"
        unfolding key_names_plain_def by auto
    qed
    then have "concat (map (part_errors tbl (normalize_id raw))
                 (split is_separator (normalize_id raw))) \<noteq> []"
      unfolding n by auto
    then show ?thesis by (simp add: keypress_errors_def Let_def)
  qed
  have char: "keypress_errors tbl raw \<noteq> []"
    if "c \<in> set raw" and "c = CHR ''/'' \<or> c = CHR ''('' \<or> c = CHR '')''" for c
  proof -
    from that have "c \<notin> set ''_+ARROW''" by auto
    from normalize_id_keeps_char [OF that(1) this] that(2)
    show ?thesis by (auto simp: keypress_errors_def Let_def)
  qed
  have or: "lower_word ''or''" "2 \<le> length ''or''" "toUpperCase ''or'' = ''OR''"
    by (simp_all add: lower_word_def is_lower_def toUpperCase_def upper_char_def char_of_def
        bit_iff_odd)
  have followed: "lower_word ''followed''" "2 \<le> length ''followed''"
    "toUpperCase ''followed'' = ''FOLLOWED''"
    by (simp_all add: lower_word_def is_lower_def toUpperCase_def upper_char_def char_of_def
        bit_iff_odd)
  from bad consider "CHR ''/'' \<in> set raw" | "CHR ''('' \<in> set raw" | "CHR '')'' \<in> set raw"
    | "test_word ''or'' raw" | "test_word ''followed'' raw"
    unfolding forbidden_def by blast
  then show ?thesis
  proof cases
    case 1 then show ?thesis by (rule char) simp
  next
    case 2 then show ?thesis by (rule char) simp
  next
    case 3 then show ?thesis by (rule char) simp
  next
    case 4 from word [OF 4 or(1,2)] or(3) show ?thesis by simp
  next
    case 5 from word [OF 5 followed(1,2)] followed(3) show ?thesis by simp
  qed
qed

text \<open>
  Claim C6. For every command one of whose keypress ids contains \<open>/\<close>, \<open>(\<close> or \<open>)\<close>, or
  the word \<open>or\<close>, or the word \<open>followed\<close> (a match of \<open>/\bor\b/\<close> or \<open>/\bfollowed\b/\<close>),
  validation returns a non-empty list of errors and no validated command. The key table
  is any table whose recognized names consist of word characters and begin neither with
  \<open>OR\<close> nor with \<open>FOLLOWED\<close>: the rewriting of the id can take the word boundary away
  (\<open>or+b\<close> becomes \<open>or_b\<close>), and then the error is that of the part \<open>or\<close>.
\<close>

theorem forbidden_ids_rejected:
  assumes "key_names_plain tbl" and "kp \<in> set (keypresses c)" and "forbidden (kp_id kp)"
  shows "v_value (validateKeysFromCommand tbl c) = None \<and>
         (\<exists>errors. v_errors (validateKeysFromCommand tbl c) = Some errors \<and> errors \<noteq> [])"
proof -
  from forbidden_keypress_errors [OF assms(1,3)] assms(2)
  have "concat (map (\<lambda>kp. keypress_errors tbl (kp_id kp)) (keypresses c)) \<noteq> []"
    by auto
  then show ?thesis
    by (simp add: validateKeysFromCommand_def validate_loop_concat Let_def)
qed

lemma seleniumKeysMap_plain: "key_names_plain (map_of seleniumKeysMap)"
proof -
  have all: "list_all (\<lambda>name. list_all is_word_char name \<and> \<not> startsWith name ''OR''
               \<and> \<not> startsWith name ''FOLLOWED'') (map fst seleniumKeysMap)"
    by code_simp
  show ?thesis
    unfolding key_names_plain_def
  proof (intro allI impI)
    fix name
    assume "recognized (map_of seleniumKeysMap) name"
    then obtain v where "map_of seleniumKeysMap name = Some v"
      by (cases "map_of seleniumKeysMap name") (simp_all add: recognized_def)
    then have "name \<in> set (map fst seleniumKeysMap)"
      by (metis map_of_SomeD fst_conv image_eqI set_map)
    with all show "(\<forall>c\<in>set name. is_word_char c) \<and> \<not> startsWith name ''OR''
        \<and> \<not> startsWith name ''FOLLOWED''"
      by (auto simp: list_all_iff)
  qed
qed

text \<open>With the names of \<open>seleniumKeysMap\<close> as the table, at the id \<open>or+b\<close>.\<close>

theorem forbidden_ids_rejected_witness:
  "key_names_plain (map_of seleniumKeysMap)
   \<and> \<lparr>kp_id = ''or+b''\<rparr> \<in> set (keypresses command_or)
   \<and> forbidden (kp_id \<lparr>kp_id = ''or+b''\<rparr>)
   \<and> v_value (validateKeysFromCommand (map_of seleniumKeysMap) command_or) = None
   \<and> (\<exists>errors. v_errors (validateKeysFromCommand (map_of seleniumKeysMap) command_or) = Some errors
         \<and> errors \<noteq> [])"
proof -
  have m: "\<lparr>kp_id = ''or+b''\<rparr> \<in> set (keypresses command_or)"
    by (simp add: command_or_def)
  have f: "forbidden (kp_id \<lparr>kp_id = ''or+b''\<rparr>)" by code_simp
  from forbidden_ids_rejected [OF seleniumKeysMap_plain m f] seleniumKeysMap_plain m f
  show ?thesis by blast
qed

section \<open>The requests of the protocol client\<close>

lemma sent_of_append: "sent_of (xs @ ys) = sent_of xs @ sent_of ys"
  by (induction xs rule: sent_of.induct) simp_all

lemma sent_of_replicate_Log: "sent_of (replicate n (Log m)) = []"
  by (induction n) simp_all

lemma send_unfold:
  assumes "await_reply (toString (nextId w)) (closes w) (inbound w) = (res, rest, closing)"
  shows "send c w =
           (res, w\<lparr>nextId := nextId w + 1, inbound := rest, closes := closing,
                   events := events w @ [Log AT_DRIVER_COMMS, SocketSend (toString (nextId w)) c]
                     @ replicate (length (inbound w) - length rest) (Log AT_DRIVER_COMMS)\<rparr>)"
  using assms by (simp add: send_def)

lemma send_sent: "sent (snd (send c w)) = sent w @ [(toString (nextId w), c)]"
proof -
  obtain res rest closing where
    "await_reply (toString (nextId w)) (closes w) (inbound w) = (res, rest, closing)"
    by (cases "await_reply (toString (nextId w)) (closes w) (inbound w)")
  from send_unfold [OF this]
  show ?thesis
    by (simp add: sent_def sent_of_append sent_of_replicate_Log)
qed

lemma sendKeys_one_key:
  "sent (snd (sendKeys [Seq (ATKeySequence [ATKeyChord [k]])] w)) =
     sent w @ [(toString (nextId w),
                \<lparr>rpc_method = ''interaction.pressKeys'', rpc_params = PressKeys [mapped k]\<rparr>)]"
proof -
  let ?c = "\<lparr>rpc_method = ''interaction.pressKeys'', rpc_params = PressKeys [mapped k]\<rparr>"
  obtain res w1 where s: "send ?c w = (res, w1)" by (cases "send ?c w")
  have "snd (sendKeys [Seq (ATKeySequence [ATKeyChord [k]])] w) = w1"
    using s by (cases res) (simp_all add: sendKeys_def ATKey_sequence_def)
  with send_sent [of ?c w] s show ?thesis by simp
qed

text \<open>What \<open>sendKeys\<close> sends when it returns: for every chord in order, its request once
  per key of the chord.\<close>

lemma sendKeys_chord_commands:
  "sendKeys_chord ks chord w = (Inr u, w') \<Longrightarrow>
     map snd (sent w') = map snd (sent w) @ replicate (length ks) (pressKeys chord)"
proof (induction ks arbitrary: w)
  case Nil
  then show ?case by simp
next
  case (Cons k ks)
  obtain res w1 where s: "send (pressKeys chord) w = (res, w1)"
    by (cases "send (pressKeys chord) w")
  from send_sent [of "pressKeys chord" w] s
  have w1: "map snd (sent w1) = map snd (sent w) @ [pressKeys chord]" by simp
  show ?case
  proof (cases res)
    case (Inl e)
    with s Cons.prems show ?thesis by (simp add: pressKeys_def)
  next
    case (Inr v)
    with s Cons.prems have "sendKeys_chord ks chord w1 = (Inr u, w')"
      by (simp add: pressKeys_def)
    from Cons.IH [OF this] w1 show ?thesis
      by (simp add: replicate_app_Cons_same)
  qed
qed

lemma sendKeys_loop_commands:
  "sendKeys_loop cs w = (Inr u, w') \<Longrightarrow>
     map snd (sent w') =
       map snd (sent w)
       @ concat (map (\<lambda>chord. replicate (length (keys chord)) (pressKeys chord)) cs)"
proof (induction cs arbitrary: w)
  case Nil
  then show ?case by simp
next
  case (Cons c cs)
  obtain res w1 where s: "sendKeys_chord (keys c) c w = (res, w1)"
    by (cases "sendKeys_chord (keys c) c w")
  show ?case
  proof (cases res)
    case (Inl e)
    with s Cons.prems show ?thesis by simp
  next
    case (Inr v)
    with s have 1: "sendKeys_chord (keys c) c w = (Inr v, w1)" by simp
    from Inr s Cons.prems have "sendKeys_loop cs w1 = (Inr u, w')" by simp
    from Cons.IH [OF this] sendKeys_chord_commands [OF 1] show ?thesis by simp
  qed
qed

text \<open>
  Claim C1. For every sequence passed to \<open>sendKeys\<close>, one \<open>interaction.pressKeys\<close> request
  is sent per chord, also for a chord of more than one key. The code does otherwise: for
  the sequence of the one chord Insert+Space, with the AT answering every request, it
  sends two requests, each with the keys of the whole chord, the second after the answer
  to the first.
\<close>

theorem sendKeys_two_key_chord:
  "sendKeys [Chord (ATKey_chord [ATKey_key ''insert'', ATKey_key ''space''])]
     (world_of nvda_capabilities (replies [''0'', ''1'']) []) =
   (Inr (),
    \<lparr>nextId = 2, inbound = [], closes = False, speech = [], clicks = [],
     reported = nvda_capabilities,
     events =
       [Log AT_DRIVER_COMMS,
        SocketSend ''0'' \<lparr>rpc_method = ''interaction.pressKeys'',
                           rpc_params = PressKeys [[0xE016], [0xE00D]]\<rparr>,
        Log AT_DRIVER_COMMS,
        Log AT_DRIVER_COMMS,
        SocketSend ''1'' \<lparr>rpc_method = ''interaction.pressKeys'',
                           rpc_params = PressKeys [[0xE016], [0xE00D]]\<rparr>,
        Log AT_DRIVER_COMMS]\<rparr>)"
  by code_simp

lemma keypress_errors_ENTER:
  assumes "recognized tbl ''ENTER''"
  shows "keypress_errors tbl ''ENTER'' = []"
proof -
  have n: "normalize_id ''ENTER'' = ''ENTER''" by code_simp
  have o: "\<not> test_word ''or'' ''ENTER''" by code_simp
  have f: "\<not> test_word ''followed'' ''ENTER''" by code_simp
  have s: "split is_separator ''ENTER'' = [''ENTER'']" by code_simp
  have u: "toUpperCase ''ENTER'' = ''ENTER''" by code_simp
  have "keypress_errors tbl ''ENTER'' = part_errors tbl ''ENTER'' ''ENTER''"
    unfolding keypress_errors_def Let_def n s using o f by simp
  also have "\<dots> = []"
    unfolding part_errors_def u using assms by simp
  finally show ?thesis .
qed

text \<open>
  Claim C9. The command \<open>{id: "c1", keypresses: [{id: "ENTER"}]}\<close> passes validation, is
  mapped to the sequence of the one chord of the one key \<open>enter\<close> with the mapped value
  \<open>E007\<close>, and \<open>sendKeys\<close> of that sequence sends exactly one request, an
  \<open>interaction.pressKeys\<close> whose keys are that one value; in every state of the driver,
  for every key table that recognizes \<open>ENTER\<close>.
\<close>

theorem scenario_A:
  assumes "recognized tbl ''ENTER''"
  shows "validateKeysFromCommand tbl command_A = \<lparr>v_value = Some command_A, v_errors = None\<rparr>
       \<and> atKeysFromCommand command_A =
           ATKeySequence [ATKeyChord [\<lparr>key = ''enter'', mapped = [0xE007]\<rparr>]]
       \<and> sent (snd (sendKeys [Seq (atKeysFromCommand command_A)] w)) =
           sent w @ [(toString (nextId w),
                      \<lparr>rpc_method = ''interaction.pressKeys'', rpc_params = PressKeys [[0xE007]]\<rparr>)]"
proof -
  have v: "validateKeysFromCommand tbl command_A = \<lparr>v_value = Some command_A, v_errors = None\<rparr>"
    by (simp add: validateKeysFromCommand_def command_A_def keypress_errors_ENTER [OF assms])
  have m: "atKeysFromCommand command_A =
           ATKeySequence [ATKeyChord [\<lparr>key = ''enter'', mapped = [0xE007]\<rparr>]]"
    by code_simp
  from v m sendKeys_one_key [of "\<lparr>key = ''enter'', mapped = [0xE007]\<rparr>" w]
  show ?thesis by simp
qed

text \<open>With the names of \<open>seleniumKeysMap\<close> as the table.\<close>

theorem scenario_A_witness:
  "recognized (map_of seleniumKeysMap) ''ENTER''
   \<and> validateKeysFromCommand (map_of seleniumKeysMap) command_A =
       \<lparr>v_value = Some command_A, v_errors = None\<rparr>
   \<and> atKeysFromCommand command_A =
           ATKeySequence [ATKeyChord [\<lparr>key = ''enter'', mapped = [0xE007]\<rparr>]]
   \<and> sent (snd (sendKeys [Seq (atKeysFromCommand command_A)] world_AB)) =
           sent world_AB @ [(toString (nextId world_AB),
                      \<lparr>rpc_method = ''interaction.pressKeys'', rpc_params = PressKeys [[0xE007]]\<rparr>)]"
proof -
  have h: "recognized (map_of seleniumKeysMap) ''ENTER''" by code_simp
  from scenario_A [OF h, of world_AB] h show ?thesis by blast
qed

section \<open>Operations only add events\<close>

lemma steadyI: "(\<And>w. \<exists>es. events (snd (m w)) = events w @ es \<and> quiet es) \<Longrightarrow> steady m"
  by (simp add: steady_def)

lemma steadyD: "steady m \<Longrightarrow> \<exists>es. events (snd (m w)) = events w @ es \<and> quiet es"
  by (simp add: steady_def)

lemma quiet_Nil: "quiet []"
  by (simp add: quiet_def)

lemma quiet_append: "quiet (xs @ ys) \<longleftrightarrow> quiet xs \<and> quiet ys"
  by (auto simp: quiet_def)

lemma steady_return: "steady (return x)"
  by (rule steadyI) (simp add: return_def quiet_Nil)

lemma steady_throw: "steady (throw e)"
  by (rule steadyI) (simp add: throw_def quiet_Nil)

lemma steady_throwTypeError: "steady (throwTypeError e)"
  by (rule steadyI) (simp add: throwTypeError_def quiet_Nil)

lemma steady_perform: "quiet es \<Longrightarrow> steady (perform es)"
  by (rule steadyI) (simp add: perform_def emit_def)

lemma steady_await:
  assumes m: "steady m" and k: "\<And>x. steady (k x)"
  shows "steady (await m k)"
proof (rule steadyI)
  fix w :: world
  obtain res w1 where mw: "m w = (res, w1)" by (cases "m w")
  from steadyD [OF m, of w] mw obtain es where es: "events w1 = events w @ es" "quiet es"
    by auto
  show "\<exists>es. events (snd (await m k w)) = events w @ es \<and> quiet es"
  proof (cases res)
    case (Inl e)
    with mw es show ?thesis by (auto simp: await_def)
  next
    case (Inr x)
    from steadyD [OF k, of x w1] obtain es' where
      "events (snd (k x w1)) = events w1 @ es'" "quiet es'" by auto
    with mw es Inr have "events (snd (await m k w)) = events w @ (es @ es')" "quiet (es @ es')"
      by (auto simp: await_def quiet_append)
    then show ?thesis by blast
  qed
qed

lemma quiet_replicate_Log: "quiet (replicate n (Log m))"
  by (simp add: quiet_def)

lemma steady_send: "steady (send c)"
proof (rule steadyI)
  fix w :: world
  obtain res rest closing where
    "await_reply (toString (nextId w)) (closes w) (inbound w) = (res, rest, closing)"
    by (cases "await_reply (toString (nextId w)) (closes w) (inbound w)")
  from send_unfold [OF this, of c]
  have "events (snd (send c w)) = events w @ ([Log AT_DRIVER_COMMS, SocketSend (toString (nextId w)) c]
                     @ replicate (length (inbound w) - length rest) (Log AT_DRIVER_COMMS))"
    by simp
  moreover have "quiet ([Log AT_DRIVER_COMMS, SocketSend (toString (nextId w)) c]
                     @ replicate (length (inbound w) - length rest) (Log AT_DRIVER_COMMS))"
    by (simp add: quiet_def)
  ultimately show "\<exists>es. events (snd (send c w)) = events w @ es \<and> quiet es"
    by blast
qed

text \<open>The inner and the outer loop of \<open>sendKeys\<close>, as awaits.\<close>

lemma sendKeys_chord_await:
  "sendKeys_chord (k # ks) chord =
     await (send \<lparr>rpc_method = ''interaction.pressKeys'',
                   rpc_params = PressKeys (map mapped (keys chord))\<rparr>)
       (\<lambda>_. sendKeys_chord ks chord)"
  by (rule ext) (simp add: await_def split: prod.splits sum.splits)

lemma sendKeys_chord_Nil: "sendKeys_chord [] chord = return ()"
  by (rule ext) (simp add: return_def)

lemma steady_sendKeys_chord: "steady (sendKeys_chord ks chord)"
proof (induction ks)
  case Nil
  show ?case unfolding sendKeys_chord_Nil by (rule steady_return)
next
  case (Cons k ks)
  show ?case unfolding sendKeys_chord_await
    by (rule steady_await [OF steady_send Cons])
qed

lemma sendKeys_loop_await:
  "sendKeys_loop (chord # rest) =
     await (sendKeys_chord (keys chord) chord) (\<lambda>_. sendKeys_loop rest)"
  by (rule ext) (simp add: await_def split: prod.splits sum.splits)

lemma sendKeys_loop_Nil: "sendKeys_loop [] = return ()"
  by (rule ext) (simp add: return_def)

lemma steady_sendKeys_loop: "steady (sendKeys_loop cs)"
proof (induction cs)
  case Nil
  show ?case unfolding sendKeys_loop_Nil by (rule steady_return)
next
  case (Cons c cs)
  show ?case unfolding sendKeys_loop_await
    by (rule steady_await [OF steady_sendKeys_chord Cons])
qed

lemma steady_sendKeys: "steady (sendKeys items)"
proof -
  have "sendKeys items = sendKeys_loop (chords (ATKey_sequence items))"
    by (rule ext) (simp add: sendKeys_def)
  then show ?thesis by (simp add: steady_sendKeys_loop)
qed

lemma steady_runner_sendKeys: "steady (runner_sendKeys s)"
  unfolding runner_sendKeys_def
  by (rule steady_await [OF steady_perform steady_sendKeys]) (simp add: quiet_def)

lemma steady_collectSpeech:
  assumes "steady m"
  shows "steady (collectSpeech d m)"
  unfolding collectSpeech_def
proof (rule steady_await [OF assms])
  fix x :: unit
  show "steady (\<lambda>w. case speech w of [] \<Rightarrow> (Inr [], w)
        | None # later \<Rightarrow> (Inl Pending, w\<lparr>speech := later\<rparr>)
        | Some spoken # later \<Rightarrow>
            (Inr spoken, emit (map (\<lambda>_. Log SPEECH_EVENT) spoken) (w\<lparr>speech := later\<rparr>)))"
    by (rule steadyI) (auto simp: emit_def quiet_def split: list.splits option.splits)
qed

lemma steady_openPage: "steady (openPage r p)"
  unfolding openPage_def
proof (rule steady_await)
  show "steady (perform [Log OPEN_PAGE, Navigate (ReferencePage p), DocumentReady, ClickWhenPresent])"
    by (rule steady_perform) (simp add: quiet_def)
next
  fix x :: unit
  show "steady (\<lambda>w. case clicks w of
          True # later \<Rightarrow> (Inr (), w\<lparr>clicks := later\<rparr>)
        | False # later \<Rightarrow> perform [Log NO_RUN_TEST_SETUP] (w\<lparr>clicks := later\<rparr>)
        | [] \<Rightarrow> perform [Log NO_RUN_TEST_SETUP] w)"
    by (rule steadyI) (auto simp: perform_def emit_def quiet_def split: list.splits bool.splits)
qed

lemma steady_toggle_loop: "steady (toggle_loop n r s d u)"
proof (induction n arbitrary: u)
  case 0
  show ?case by (simp add: steady_throw)
next
  case (Suc n)
  show ?case
    unfolding toggle_loop.simps
  proof (rule steady_await [OF steady_collectSpeech [OF steady_runner_sendKeys]])
    fix x
    show "steady (case scan_speech d u x of (True, uu) \<Rightarrow> return ()
            | (False, u') \<Rightarrow> toggle_loop n r s d u')"
      by (cases "scan_speech d u x") (auto simp: steady_return Suc split: bool.splits)
  qed
qed

lemma steady_pressKeysToToggleSetting: "steady (pressKeysToToggleSetting r s d)"
  by (simp add: pressKeysToToggleSetting_def steady_toggle_loop)

lemma steady_toggle_object_loop: "steady (toggle_object_loop n r s shown)"
proof (induction n)
  case 0
  show ?case by (simp add: steady_throw)
next
  case (Suc n)
  show ?case
    unfolding toggle_object_loop.simps
  proof (rule steady_await [OF steady_collectSpeech [OF steady_runner_sendKeys]])
    fix x
    show "steady (if x \<noteq> []
            then throwTypeError ''desiredResponse.toLowerCase is not a function''
            else toggle_object_loop n r s shown)"
      by (simp add: steady_throwTypeError Suc)
  qed
qed

lemma steady_pressKeysToToggleSetting_object:
  "steady (pressKeysToToggleSetting_object r s shown)"
  by (simp add: pressKeysToToggleSetting_object_def steady_toggle_object_loop)

lemma try_finally_Pending:
  "body w = (Inl Pending, w1) \<Longrightarrow> try_finally body cleanup w = (Inl Pending, w1)"
  by (simp add: try_finally_def)

lemma try_finally_cleanup:
  assumes "body w = (res, w1)" and "res \<noteq> Inl Pending" and "cleanup w1 = (res2, w2)"
  shows "snd (try_finally body cleanup w) = w2"
proof (cases res)
  case (Inl f)
  with assms(2) obtain e where "f = Thrown e" by (cases f) auto
  with Inl assms(1,3) show ?thesis by (cases res2) (simp_all add: try_finally_def)
next
  case (Inr x)
  with assms(1,3) show ?thesis by (cases res2) (simp_all add: try_finally_def)
qed

lemma steady_try_finally:
  assumes a: "steady a" and b: "steady b"
  shows "steady (try_finally a b)"
proof (rule steadyI)
  fix w :: world
  obtain res w1 where aw: "a w = (res, w1)" by (cases "a w")
  obtain res2 w2 where bw: "b w1 = (res2, w2)" by (cases "b w1")
  from steadyD [OF a, of w] aw obtain es where es: "events w1 = events w @ es" "quiet es" by auto
  from steadyD [OF b, of w1] bw obtain es' where es': "events w2 = events w1 @ es'" "quiet es'" by auto
  show "\<exists>es. events (snd (try_finally a b w)) = events w @ es \<and> quiet es"
  proof (cases "res = Inl Pending")
    case True
    with aw have "snd (try_finally a b w) = w1" by (simp add: try_finally_Pending)
    with es show ?thesis by auto
  next
    case False
    from try_finally_cleanup [of a w res w1 b res2 w2, OF aw False bw] es es'
    have "events (snd (try_finally a b w)) = events w @ (es @ es')" "quiet (es @ es')"
      by (simp_all add: quiet_append)
    then show ?thesis by blast
  qed
qed

lemma steady_ensureSettings: "steady (ensureSettings r s)"
proof -
  have object: "steady (case inherited s of
                Some shown \<Rightarrow>
                  await (send (setSettings False)) (\<lambda>_.
                    try_finally
                      (pressKeysToToggleSetting_object r
                         (chord_of_names [''insert'', ''space'']) shown)
                      (send (setSettings True)))
              | None \<Rightarrow>
                  throw (''Unknown command settings for NVDA '' @ [CHR 0x22] @ s @ [CHR 0x22]))"
    by (cases "inherited s")
       (simp_all add: steady_throw steady_await steady_send steady_try_finally
          steady_pressKeysToToggleSetting_object)
  have nvda: "steady (case nvda_response s of
           Some desiredResponse \<Rightarrow>
             await (send (setSettings False)) (\<lambda>_.
               try_finally
                 (pressKeysToToggleSetting r (chord_of_names [''insert'', ''space''])
                    desiredResponse)
                 (send (setSettings True)))
         | None \<Rightarrow>
             (case inherited s of
                Some shown \<Rightarrow>
                  await (send (setSettings False)) (\<lambda>_.
                    try_finally
                      (pressKeysToToggleSetting_object r
                         (chord_of_names [''insert'', ''space'']) shown)
                      (send (setSettings True)))
              | None \<Rightarrow>
                  throw (''Unknown command settings for NVDA '' @ [CHR 0x22] @ s @ [CHR 0x22])))"
    using object
    by (cases "nvda_response s")
       (simp_all add: steady_await steady_send steady_try_finally
          steady_pressKeysToToggleSetting)
  show ?thesis
    unfolding ensureSettings_def Let_def
    using nvda
    by (simp only: steady_throw steady_return steady_pressKeysToToggleSetting if_split simp_thms)
qed

lemma steady_ensureMode: "steady (ensureMode r m)"
  unfolding ensureMode_def Let_def
  by (simp add: steady_throw steady_return steady_ensureSettings)

lemma steady_run_valid: "steady (run_valid r t c v)"
proof -
  have 1: "steady (collectSpeech (afterNav (timesOption r)) (openPage r (referencePage (target t))))"
    by (rule steady_collectSpeech [OF steady_openPage])
  have 2: "steady (if truthy (settings c) then ensureSettings r (the (settings c))
           else if truthy (mode (target t)) then ensureMode r (the (mode (target t)))
           else return ())"
    by (simp add: steady_ensureSettings steady_ensureMode steady_return)
  have 3: "steady (collectSpeech (afterKeys (timesOption r))
             (runner_sendKeys (atKeysFromCommand v)))"
    by (rule steady_collectSpeech [OF steady_runner_sendKeys])
  have 4: "steady (collectSpeech (afterNav (timesOption r)) (perform [Log OPEN_PAGE, Navigate AboutBlank]))"
    by (rule steady_collectSpeech [OF steady_perform]) (simp add: quiet_def)
  show ?thesis
    unfolding run_valid_def
    by (rule steady_await [OF 1], rule steady_await [OF 2], rule steady_await [OF 3],
        rule steady_await [OF 4], rule steady_return)
qed

lemma steady_run_loop: "steady (run_loop tbl r t cs outs ress)"
proof (induction cs arbitrary: outs ress)
  case Nil
  show ?case by (simp add: steady_return)
next
  case (Cons c cs)
  show ?case
  proof (cases "v_value (validateKeysFromCommand tbl c)")
    case None
    then show ?thesis
      by (simp add: Cons steady_await steady_perform quiet_def)
  next
    case (Some v)
    then show ?thesis
      by (simp add: Cons steady_await steady_run_valid)
  qed
qed

lemma steady_run: "steady (run tbl r t)"
  unfolding run_def
proof (rule steady_await [OF steady_perform], goal_cases)
  case 1
  show ?case by (simp add: quiet_def)
next
  case (2 x)
  show ?case
  proof (rule steady_await [OF steady_run_loop])
    fix y :: "command_output list \<times> assertion_result list"
    show "steady (case y of (commandsOutput, results) \<Rightarrow>
          return \<lparr>tr_testId = testId (info t),
                  tr_presentationNumber = presentationNumber (info t),
                  tr_capabilities = collectedCapabilities r,
                  tr_commands = commandsOutput,
                  tr_results = results\<rparr>)"
      by (cases y) (simp add: steady_return)
  qed
qed

lemma steady_sent:
  assumes "steady m"
  shows "\<exists>more. sent (snd (m w)) = sent w @ more"
proof -
  from steadyD [OF assms, of w] obtain es where "events (snd (m w)) = events w @ es" by auto
  then have "sent (snd (m w)) = sent w @ sent_of es"
    by (simp add: sent_def sent_of_append)
  then show ?thesis ..
qed

section \<open>Toggling a setting\<close>

lemma scan_speech_heard:
  "heard d lines \<Longrightarrow> fst (scan_speech d u lines) = True"
  by (induction lines arbitrary: u) (auto simp: heard_def Let_def)

lemma scan_speech_unheard:
  "\<not> heard d lines \<Longrightarrow> fst (scan_speech d u lines) = False"
  by (induction lines arbitrary: u) (auto simp: heard_def Let_def)

lemma scan_speech_collects:
  "\<not> heard d lines \<Longrightarrow>
     prefix u (snd (scan_speech d u lines)) \<and>
     (\<forall>line\<in>set lines. sublist (trim line) (snd (scan_speech d u lines)))"
proof (induction lines arbitrary: u)
  case Nil
  show ?case by simp
next
  case (Cons l ls)
  let ?u' = "(if length u > 0 then u @ [CHR 0x0A] else u) @ trim l"
  from Cons.prems have no: "toLowerCase (trim l) \<noteq> toLowerCase d" and rest: "\<not> heard d ls"
    by (simp_all add: heard_def)
  have step: "scan_speech d u (l # ls) = scan_speech d ?u' ls"
    using no by (simp add: Let_def)
  from Cons.IH [OF rest, of ?u'] have
    p: "prefix ?u' (snd (scan_speech d ?u' ls))" and
    s: "\<forall>line\<in>set ls. sublist (trim line) (snd (scan_speech d ?u' ls))" by auto
  have u: "prefix u ?u'" by simp
  from u p have pu: "prefix u (snd (scan_speech d ?u' ls))"
    by (rule prefix_order.trans)
  have "suffix (trim l) ?u'" by (simp add: suffix_def)
  then have "sublist (trim l) ?u'" by (rule suffix_imp_sublist)
  moreover from p have "sublist ?u' (snd (scan_speech d ?u' ls))" by (rule prefix_imp_sublist)
  ultimately have "sublist (trim l) (snd (scan_speech d ?u' ls))"
    by (rule sublist_order.order.trans)
  with pu s show ?case unfolding step by simp
qed

lemma toggle_loop_Suc:
  assumes "attempt r s w = (Inr lines, w1)"
  shows "toggle_loop (Suc n) r s d u w =
           (if heard d lines then (Inr (), w1)
            else toggle_loop n r s d (snd (scan_speech d u lines)) w1)"
proof (cases "heard d lines")
  case True
  from scan_speech_heard [OF this, of u] obtain u' where "scan_speech d u lines = (True, u')"
    by (cases "scan_speech d u lines") simp
  with assms True show ?thesis
    by (simp add: attempt_def await_def return_def)
next
  case False
  from scan_speech_unheard [OF this, of u] obtain u' where "scan_speech d u lines = (False, u')"
    by (cases "scan_speech d u lines") simp
  with assms False show ?thesis
    by (simp add: attempt_def await_def)
qed

lemma toggle_loop_Suc_throws:
  assumes "attempt r s w = (Inl e, w1)"
  shows "toggle_loop (Suc n) r s d u w = (Inl e, w1)"
  using assms by (simp add: attempt_def await_def)

lemma two_tries:
  "pressKeysToToggleSetting r s d = toggle_loop (Suc (Suc 0)) r s d []"
  by (simp add: pressKeysToToggleSetting_def numeral_2_eq_2 del: toggle_loop.simps)

lemma toggle_loop_0:
  "toggle_loop 0 r s d u w = (Inl (Thrown (Error (unable_to_apply d u))), w)"
  by (simp add: throw_def)

text \<open>White space around a captured line, the no-break space included, and the case of
  letters, those of Latin-1 included, do not count; white space at the end of the desired
  response does.\<close>

lemma heard_examples:
  "heard ''Browse mode'' [''beep'', [CHR 0x09] @ ''BROWSE MODE'' @ [CHR 0xA0, CHR 0x0A]]
   \<and> heard [CHR 0xC9, CHR ''t'', CHR 0xE9] [[CHR 0xA0, CHR 0xE9, CHR ''T'', CHR 0xC9]]
   \<and> \<not> heard ''Browse mode '' [''Browse mode '']"
  by code_simp

text \<open>
  Claim C4, as the code has it. The captured lines are trimmed before they are compared
  and the desired response is not. When a line captured at the first attempt, trimmed,
  is the desired response up to case, \<open>pressKeysToToggleSetting\<close> returns in the state the
  first attempt left: there is no second attempt. When both attempts capture their lines
  and no line of either, trimmed, is the desired response up to case, it throws in the
  state the second attempt left, with the message built from \<open>unknownCollected\<close>, which
  holds every line of both attempts, trimmed. In every case it ends in the state left by
  one attempt or by two: there are at most two attempts.
\<close>

theorem pressKeysToToggleSetting_attempts:
  "(attempt r s w = (Inr lines1, w1) \<and> heard d lines1 \<longrightarrow>
      pressKeysToToggleSetting r s d w = (Inr (), w1))
   \<and> (attempt r s w = (Inr lines1, w1) \<and> attempt r s w1 = (Inr lines2, w2)
        \<and> \<not> heard d lines1 \<and> \<not> heard d lines2 \<longrightarrow>
      (\<exists>unknownCollected.
         pressKeysToToggleSetting r s d w =
           (Inl (Thrown (Error (unable_to_apply d unknownCollected))), w2)
         \<and> (\<forall>line\<in>set (lines1 @ lines2). sublist (trim line) unknownCollected)))
   \<and> (snd (pressKeysToToggleSetting r s d w) = snd (attempt r s w)
        \<or> snd (pressKeysToToggleSetting r s d w) = snd (attempt r s (snd (attempt r s w))))"
proof (intro conjI impI)
  assume "attempt r s w = (Inr lines1, w1) \<and> heard d lines1"
  then show "pressKeysToToggleSetting r s d w = (Inr (), w1)"
    by (simp add: two_tries toggle_loop_Suc del: toggle_loop.simps)
next
  assume a: "attempt r s w = (Inr lines1, w1) \<and> attempt r s w1 = (Inr lines2, w2)
        \<and> \<not> heard d lines1 \<and> \<not> heard d lines2"
  let ?u1 = "snd (scan_speech d [] lines1)"
  let ?u2 = "snd (scan_speech d ?u1 lines2)"
  from a have run: "pressKeysToToggleSetting r s d w =
      (Inl (Thrown (Error (unable_to_apply d ?u2))), w2)"
    by (simp add: two_tries toggle_loop_Suc toggle_loop_0 del: toggle_loop.simps)
  from a scan_speech_collects [of d lines1 "[]"] have
    l1: "\<forall>line\<in>set lines1. sublist (trim line) ?u1" by simp
  from a scan_speech_collects [of d lines2 ?u1] have
    p: "prefix ?u1 ?u2" and l2: "\<forall>line\<in>set lines2. sublist (trim line) ?u2" by simp_all
  from p have "sublist ?u1 ?u2" by (rule prefix_imp_sublist)
  with l1 have "\<forall>line\<in>set lines1. sublist (trim line) ?u2"
    by (blast intro: sublist_order.order.trans)
  with l2 have "\<forall>line\<in>set (lines1 @ lines2). sublist (trim line) ?u2" by auto
  with run show "\<exists>unknownCollected.
         pressKeysToToggleSetting r s d w =
           (Inl (Thrown (Error (unable_to_apply d unknownCollected))), w2)
         \<and> (\<forall>line\<in>set (lines1 @ lines2). sublist (trim line) unknownCollected)"
    by blast
next
  obtain res1 v1 where a1: "attempt r s w = (res1, v1)" by (cases "attempt r s w")
  obtain res2 v2 where a2: "attempt r s v1 = (res2, v2)" by (cases "attempt r s v1")
  show "snd (pressKeysToToggleSetting r s d w) = snd (attempt r s w)
        \<or> snd (pressKeysToToggleSetting r s d w) = snd (attempt r s (snd (attempt r s w)))"
  proof (cases res1)
    case (Inl e)
    with a1 show ?thesis
      by (simp add: two_tries toggle_loop_Suc_throws del: toggle_loop.simps)
  next
    case (Inr lines)
    note r1 = this
    show ?thesis
    proof (cases res2)
      case (Inl e)
      with a1 a2 r1 show ?thesis
        by (simp add: two_tries toggle_loop_Suc toggle_loop_Suc_throws del: toggle_loop.simps)
    next
      case (Inr lines')
      with a1 a2 r1 show ?thesis
        by (simp add: two_tries toggle_loop_Suc toggle_loop_0 del: toggle_loop.simps)
    qed
  qed
qed

text \<open>A first attempt that hears \<open>Browse mode\<close>, and two attempts that do not.\<close>

theorem pressKeysToToggleSetting_attempts_witness:
  "attempt nvda_runner insert_space world_heard =
     (Inr [''Browse mode ''], snd (attempt nvda_runner insert_space world_heard))
   \<and> heard ''browse MODE'' [''Browse mode '']
   \<and> pressKeysToToggleSetting nvda_runner insert_space ''browse MODE'' world_heard =
       (Inr (), snd (attempt nvda_runner insert_space world_heard))
   \<and> attempt nvda_runner insert_space world_unheard =
       (Inr [''Focus mode''], snd (attempt nvda_runner insert_space world_unheard))
   \<and> attempt nvda_runner insert_space (snd (attempt nvda_runner insert_space world_unheard)) =
       (Inr ['' beep'', ''Focus mode ''],
        snd (attempt nvda_runner insert_space (snd (attempt nvda_runner insert_space world_unheard))))
   \<and> \<not> heard ''Browse mode'' [''Focus mode'']
   \<and> \<not> heard ''Browse mode'' ['' beep'', ''Focus mode '']
   \<and> (\<exists>unknownCollected.
         pressKeysToToggleSetting nvda_runner insert_space ''Browse mode'' world_unheard =
           (Inl (Thrown (Error (unable_to_apply ''Browse mode'' unknownCollected))),
            snd (attempt nvda_runner insert_space (snd (attempt nvda_runner insert_space world_unheard))))
         \<and> (\<forall>line\<in>set ([''Focus mode''] @ ['' beep'', ''Focus mode '']).
               sublist (trim line) unknownCollected))"
proof -
  have a1: "attempt nvda_runner insert_space world_heard =
     (Inr [''Browse mode ''], snd (attempt nvda_runner insert_space world_heard))"
    by code_simp
  have h1: "heard ''browse MODE'' [''Browse mode '']" by code_simp
  have b1: "attempt nvda_runner insert_space world_unheard =
       (Inr [''Focus mode''], snd (attempt nvda_runner insert_space world_unheard))"
    by code_simp
  have b2: "attempt nvda_runner insert_space (snd (attempt nvda_runner insert_space world_unheard)) =
       (Inr ['' beep'', ''Focus mode ''],
        snd (attempt nvda_runner insert_space (snd (attempt nvda_runner insert_space world_unheard))))"
    by code_simp
  have n1: "\<not> heard ''Browse mode'' [''Focus mode'']" by code_simp
  have n2: "\<not> heard ''Browse mode'' ['' beep'', ''Focus mode '']" by code_simp
  from pressKeysToToggleSetting_attempts [of nvda_runner insert_space world_heard
      "[''Browse mode '']" "snd (attempt nvda_runner insert_space world_heard)" "''browse MODE''"] a1 h1
  have first: "pressKeysToToggleSetting nvda_runner insert_space ''browse MODE'' world_heard =
       (Inr (), snd (attempt nvda_runner insert_space world_heard))"
    by blast
  from pressKeysToToggleSetting_attempts [of nvda_runner insert_space world_unheard
      "[''Focus mode'']" "snd (attempt nvda_runner insert_space world_unheard)" "''Browse mode''"
      "['' beep'', ''Focus mode '']"
      "snd (attempt nvda_runner insert_space (snd (attempt nvda_runner insert_space world_unheard)))"]
    b1 b2 n1 n2
  have both: "\<exists>unknownCollected.
         pressKeysToToggleSetting nvda_runner insert_space ''Browse mode'' world_unheard =
           (Inl (Thrown (Error (unable_to_apply ''Browse mode'' unknownCollected))),
            snd (attempt nvda_runner insert_space (snd (attempt nvda_runner insert_space world_unheard))))
         \<and> (\<forall>line\<in>set ([''Focus mode''] @ ['' beep'', ''Focus mode '']).
               sublist (trim line) unknownCollected)"
    by blast
  from a1 h1 first b1 b2 n1 n2 both show ?thesis by blast
qed

text \<open>The claim as it is worded, with every desired response, fails for a response with
  white space at its end: the line \<open>Browse mode \<close> captured at the first attempt is the
  desired response \<open>Browse mode \<close> itself, yet a second attempt is made and the call
  throws.\<close>

theorem toggle_untrimmed_response:
  "fst (attempt nvda_runner insert_space world_untrimmed) = Inr [''Browse mode '']
   \<and> fst (pressKeysToToggleSetting nvda_runner insert_space ''Browse mode '' world_untrimmed) =
       Inl (Thrown (Error (unable_to_apply ''Browse mode '' ''Browse mode'')))
   \<and> count_list (events (snd (pressKeysToToggleSetting nvda_runner insert_space ''Browse mode ''
         world_untrimmed))) (Log PRESS_KEYS) = 2"
  by code_simp

section \<open>Settings of NVDA\<close>

lemma ensureSettings_NVDA:
  assumes "atName (collectedCapabilities r) = Some ''NVDA''" and "nvda_response st = Some d"
  shows "ensureSettings r st =
           await (send (setSettings False)) (\<lambda>_.
             try_finally (pressKeysToToggleSetting r (chord_of_names [''insert'', ''space'']) d)
               (send (setSettings True)))"
  using assms by (simp add: ensureSettings_def)

lemma try_finally_sent:
  assumes "steady body" and "fst (body w) \<noteq> Inl Pending"
  shows "\<exists>mid i. sent (snd (try_finally body (send c) w)) = sent w @ mid @ [(i, c)]"
proof -
  obtain res w1 where b: "body w = (res, w1)" by (cases "body w")
  obtain res2 w2 where s: "send c w1 = (res2, w2)" by (cases "send c w1")
  from assms(2) b have np: "res \<noteq> Inl Pending" by simp
  from steady_sent [OF assms(1), of w] b obtain mid where mid: "sent w1 = sent w @ mid" by auto
  from send_sent [of c w1] s have "sent w2 = sent w1 @ [(toString (nextId w1), c)]" by simp
  moreover have "snd (try_finally body (send c) w) = w2"
    by (rule try_finally_cleanup [of body w res w1 "send c" res2 w2, OF b np s])
  ultimately have "sent (snd (try_finally body (send c) w)) = sent w @ mid @ [(toString (nextId w1), c)]"
    using mid by simp
  then show ?thesis by blast
qed

text \<open>
  Claim C5, as the code has it. When \<open>ensureSettings\<close> runs for NVDA with a setting it
  knows, the first request it sends sets the audio indication to false. When that
  request is answered without an error and the toggle attempts that follow return or
  throw (none of their waits is without end), the last request it sends sets the audio
  indication to true, whether the toggle attempts succeeded or threw.
\<close>

theorem ensureSettings_NVDA_restores:
  assumes "atName (collectedCapabilities r) = Some ''NVDA''" and "nvda_response st = Some d"
  shows "(\<exists>later. sent (snd (ensureSettings r st w)) =
                   sent w @ (toString (nextId w), setSettings False) # later)
       \<and> (fst (send (setSettings False) w) = Inr () \<and>
          fst (pressKeysToToggleSetting r (chord_of_names [''insert'', ''space'']) d
                 (snd (send (setSettings False) w))) \<noteq> Inl Pending \<longrightarrow>
            (\<exists>mid i. sent (snd (ensureSettings r st w)) =
                   sent w @ [(toString (nextId w), setSettings False)] @ mid
                     @ [(i, setSettings True)]))"
proof -
  let ?toggle = "pressKeysToToggleSetting r (chord_of_names [''insert'', ''space'']) d"
  obtain res w1 where s: "send (setSettings False) w = (res, w1)"
    by (cases "send (setSettings False) w")
  from send_sent [of "setSettings False" w] s
  have w1: "sent w1 = sent w @ [(toString (nextId w), setSettings False)]" by simp
  from steady_sent [OF steady_try_finally [OF steady_pressKeysToToggleSetting steady_send],
      of r "chord_of_names [''insert'', ''space'']" d "setSettings True" w1]
  obtain more where
    more: "sent (snd (try_finally ?toggle (send (setSettings True)) w1)) = sent w1 @ more"
    by blast
  have first: "\<exists>later. sent (snd (ensureSettings r st w)) =
                   sent w @ (toString (nextId w), setSettings False) # later"
  proof (cases res)
    case (Inl e)
    with s w1 show ?thesis
      by (simp add: ensureSettings_NVDA [OF assms] await_def)
  next
    case (Inr u)
    with s have "snd (ensureSettings r st w) = snd (try_finally ?toggle (send (setSettings True)) w1)"
      by (simp add: ensureSettings_NVDA [OF assms] await_def)
    with more w1 show ?thesis by simp
  qed
  have last: "\<exists>mid i. sent (snd (ensureSettings r st w)) =
                   sent w @ [(toString (nextId w), setSettings False)] @ mid
                     @ [(i, setSettings True)]"
    if ok: "fst (send (setSettings False) w) = Inr ()"
      and np: "fst (?toggle (snd (send (setSettings False) w))) \<noteq> Inl Pending"
  proof -
    from ok s have res: "res = Inr ()" by simp
    from np s have "fst (?toggle w1) \<noteq> Inl Pending" by simp
    from try_finally_sent [OF steady_pressKeysToToggleSetting this, of "setSettings True"]
    obtain mid i where
      tf: "sent (snd (try_finally ?toggle (send (setSettings True)) w1)) =
             sent w1 @ mid @ [(i, setSettings True)]"
      by blast
    from res s have "snd (ensureSettings r st w) = snd (try_finally ?toggle (send (setSettings True)) w1)"
      by (simp add: ensureSettings_NVDA [OF assms] await_def)
    with tf w1 have "sent (snd (ensureSettings r st w)) =
        sent w @ [(toString (nextId w), setSettings False)] @ mid @ [(i, setSettings True)]"
      by simp
    then show ?thesis by blast
  qed
  from first last show ?thesis by blast
qed

text \<open>Scenario C: \<open>Focus mode\<close> is heard at the first attempt and \<open>Browse mode\<close> at the
  second.\<close>

theorem ensureSettings_NVDA_restores_witness:
  "atName (collectedCapabilities nvda_runner) = Some ''NVDA''
   \<and> nvda_response ''browseMode'' = Some ''Browse mode''
   \<and> fst (send (setSettings False) world_toggle) = Inr ()
   \<and> fst (pressKeysToToggleSetting nvda_runner (chord_of_names [''insert'', ''space''])
             ''Browse mode'' (snd (send (setSettings False) world_toggle))) = Inr ()
   \<and> (\<exists>later. sent (snd (ensureSettings nvda_runner ''browseMode'' world_toggle)) =
                   sent world_toggle @ (toString (nextId world_toggle), setSettings False) # later)
   \<and> (\<exists>mid i. sent (snd (ensureSettings nvda_runner ''browseMode'' world_toggle)) =
                   sent world_toggle @ [(toString (nextId world_toggle), setSettings False)] @ mid
                     @ [(i, setSettings True)])"
proof -
  have n: "atName (collectedCapabilities nvda_runner) = Some ''NVDA''" by code_simp
  have d: "nvda_response ''browseMode'' = Some ''Browse mode''" by code_simp
  have s: "fst (send (setSettings False) world_toggle) = Inr ()" by code_simp
  have t: "fst (pressKeysToToggleSetting nvda_runner (chord_of_names [''insert'', ''space''])
             ''Browse mode'' (snd (send (setSettings False) world_toggle))) = Inr ()"
    by code_simp
  then have t': "fst (pressKeysToToggleSetting nvda_runner (chord_of_names [''insert'', ''space''])
             ''Browse mode'' (snd (send (setSettings False) world_toggle))) \<noteq> Inl Pending"
    by simp
  from ensureSettings_NVDA_restores [OF n d, of world_toggle] n d s t t' show ?thesis by blast
qed

text \<open>The claim as it is worded, on every path, fails when the AT answers the first
  settings request with an error: \<open>ensureSettings\<close> throws that error and nothing is sent
  after the request.\<close>

theorem ensureSettings_rejected_no_restore:
  "fst (ensureSettings nvda_runner ''browseMode'' world_rejecting) =
     Inl (Thrown (Error ''unknown setting''))
   \<and> sent (snd (ensureSettings nvda_runner ''browseMode'' world_rejecting)) =
       [(''0'', setSettings False)]"
  by code_simp

text \<open>Nor is anything sent after a key press of the toggle that the AT never answers:
  the wait does not end and the \<open>finally\<close> block is not reached.\<close>

lemma ensureSettings_unanswered_no_restore:
  "fst (ensureSettings nvda_runner ''browseMode'' world_silent) = Inl Pending
   \<and> sent (snd (ensureSettings nvda_runner ''browseMode'' world_silent)) =
       [(''0'', setSettings False),
        (''1'', pressKeys (ATKey_chord [ATKey_key ''insert'', ATKey_key ''space'']))]"
  by code_simp

section \<open>The result of a run\<close>

lemma await_Inr:
  assumes "await m k w = (Inr y, w')"
  obtains x w1 where "m w = (Inr x, w1)" and "k x w1 = (Inr y, w')"
proof -
  obtain res w1 where mw: "m w = (res, w1)" by (cases "m w")
  show ?thesis
  proof (cases res)
    case (Inl e)
    with mw assms show ?thesis by (simp add: await_def)
  next
    case (Inr x)
    with mw assms have "k x w1 = (Inr y, w')" by (simp add: await_def)
    with mw Inr that show ?thesis by blast
  qed
qed

lemma run_loop_results:
  "run_loop tbl r t cs outs ress w = (Inr (outs', ress'), w') \<Longrightarrow>
     ress' = ress @ concat (map (results_of tbl t) cs) \<and>
     (\<exists>new. outs' = outs @ new \<and> list_all2 (output_of tbl) cs new)"
proof (induction cs arbitrary: outs ress w)
  case Nil
  then show ?case by (simp add: return_def)
next
  case (Cons c cs)
  show ?case
  proof (cases "v_value (validateKeysFromCommand tbl c)")
    case None
    let ?out = "\<lparr>co_command = cmd_id c, co_output = None,
                   co_errors = v_errors (validateKeysFromCommand tbl c)\<rparr>"
    let ?res = "map (\<lambda>a. \<lparr>ar_command = cmd_id c, ar_expectation = expectation a,
                            ar_pass = False\<rparr>) (assertions t)"
    from Cons.prems None
    have "run_loop tbl r t cs (outs @ [?out]) (ress @ ?res) (emit [Log INVALID_KEYS] w)
            = (Inr (outs', ress'), w')"
      by (simp add: await_def perform_def)
    from Cons.IH [OF this] obtain new where
      "ress' = (ress @ ?res) @ concat (map (results_of tbl t) cs)"
      "outs' = (outs @ [?out]) @ new" "list_all2 (output_of tbl) cs new" by blast
    moreover have "results_of tbl t c = ?res" using None by (simp add: results_of_def valid_def)
    moreover have "output_of tbl c ?out" using None by (simp add: output_of_def valid_def)
    ultimately have "ress' = ress @ concat (map (results_of tbl t) (c # cs))"
      "outs' = outs @ (?out # new)" "list_all2 (output_of tbl) (c # cs) (?out # new)"
      by simp_all
    then show ?thesis by blast
  next
    case (Some v)
    let ?res = "map (\<lambda>a. \<lparr>ar_command = cmd_id c,
                            ar_expectation = js_or (expectation a) (assertionStatement a),
                            ar_pass = True\<rparr>) (assertions t)"
    from Cons.prems Some
    have "await (run_valid r t c v) (\<lambda>spokenOutput.
            run_loop tbl r t cs
              (outs @ [\<lparr>co_command = cmd_id c, co_output = Some (join [CHR 0x0A] spokenOutput),
                   co_errors = None\<rparr>]) (ress @ ?res)) w = (Inr (outs', ress'), w')"
      by simp
    then obtain spoken w1 where
      "run_loop tbl r t cs
              (outs @ [\<lparr>co_command = cmd_id c, co_output = Some (join [CHR 0x0A] spoken),
                   co_errors = None\<rparr>]) (ress @ ?res) w1 = (Inr (outs', ress'), w')"
      by (rule await_Inr)
    from Cons.IH [OF this] obtain new where
      "ress' = (ress @ ?res) @ concat (map (results_of tbl t) cs)"
      "outs' = (outs @ [\<lparr>co_command = cmd_id c, co_output = Some (join [CHR 0x0A] spoken),
                   co_errors = None\<rparr>]) @ new" "list_all2 (output_of tbl) cs new" by blast
    moreover have "results_of tbl t c = ?res" using Some by (simp add: results_of_def valid_def)
    moreover have "output_of tbl c \<lparr>co_command = cmd_id c, co_output = Some (join [CHR 0x0A] spoken),
                   co_errors = None\<rparr>" using Some by (simp add: output_of_def valid_def)
    ultimately have "ress' = ress @ concat (map (results_of tbl t) (c # cs))"
      "outs' = outs @ (\<lparr>co_command = cmd_id c, co_output = Some (join [CHR 0x0A] spoken),
                   co_errors = None\<rparr> # new)"
      "list_all2 (output_of tbl) (c # cs) (\<lparr>co_command = cmd_id c, co_output = Some (join [CHR 0x0A] spoken),
                   co_errors = None\<rparr> # new)"
      by simp_all
    then show ?thesis by blast
  qed
qed

lemma run_results:
  assumes "run tbl r t w = (Inr res, w')"
  shows "tr_results res = concat (map (results_of tbl t) (commands t))"
    and "list_all2 (output_of tbl) (commands t) (tr_commands res)"
    and "tr_capabilities res = collectedCapabilities r"
proof -
  let ?finish = "\<lambda>(commandsOutput, results).
          return \<lparr>tr_testId = testId (info t),
                  tr_presentationNumber = presentationNumber (info t),
                  tr_capabilities = collectedCapabilities r,
                  tr_commands = commandsOutput,
                  tr_results = results\<rparr>"
  from assms obtain u w1 where
    "await (run_loop tbl r t (commands t) [] []) ?finish w1 = (Inr res, w')"
    unfolding run_def by (rule await_Inr)
  then obtain y w2 where
    loop: "run_loop tbl r t (commands t) [] [] w1 = (Inr y, w2)" and
    fin: "?finish y w2 = (Inr res, w')"
    by (rule await_Inr)
  obtain outs ress where y: "y = (outs, ress)" by (cases y)
  from fin y have res: "res = \<lparr>tr_testId = testId (info t),
                  tr_presentationNumber = presentationNumber (info t),
                  tr_capabilities = collectedCapabilities r,
                  tr_commands = outs,
                  tr_results = ress\<rparr>"
    by (simp add: return_def)
  from run_loop_results [OF loop [unfolded y]] obtain new where
    "ress = [] @ concat (map (results_of tbl t) (commands t))"
    "outs = [] @ new" "list_all2 (output_of tbl) (commands t) new" by blast
  with res show "tr_results res = concat (map (results_of tbl t) (commands t))"
    and "list_all2 (output_of tbl) (commands t) (tr_commands res)"
    and "tr_capabilities res = collectedCapabilities r"
    by simp_all
qed

lemma length_concat_const:
  "(\<And>x. x \<in> set xs \<Longrightarrow> length (f x) = n) \<Longrightarrow> length (concat (map f xs)) = length xs * n"
  by (induction xs) simp_all

lemma invalid_has_errors: "\<not> valid tbl c \<Longrightarrow> v_errors (validateKeysFromCommand tbl c) \<noteq> None"
  by (simp add: valid_def validateKeysFromCommand_def Let_def split: if_splits)

lemma output_group: "output_of tbl c out \<Longrightarrow> group_of t out (results_of tbl t c)"
proof (cases "valid tbl c")
  case True
  assume "output_of tbl c out"
  with True show ?thesis
    by (simp add: output_of_def group_of_def results_of_def list_all_iff)
next
  case False
  assume "output_of tbl c out"
  with False invalid_has_errors [OF False] show ?thesis
    by (simp add: output_of_def group_of_def results_of_def list_all_iff)
qed

lemma groups_of_outputs:
  "list_all2 (output_of tbl) cs outs \<Longrightarrow>
     list_all2 (group_of t) outs (map (results_of tbl t) cs)"
  by (induction rule: list_all2_induct) (simp_all add: output_group)

lemma run_loop_valid:
  assumes "valid tbl c"
    and "run_valid r t c (the (v_value (validateKeysFromCommand tbl c))) w = (Inr spokenOutput, w1)"
  shows "run_loop tbl r t (c # later) commandsOutput results w =
        run_loop tbl r t later
          (commandsOutput @ [\<lparr>co_command = cmd_id c,
                               co_output = Some (join [CHR 0x0A] spokenOutput),
                               co_errors = None\<rparr>])
          (results @ map (\<lambda>a. \<lparr>ar_command = cmd_id c,
                                  ar_expectation = js_or (expectation a) (assertionStatement a),
                                  ar_pass = True\<rparr>) (assertions t))
          w1"
proof -
  from assms(1) obtain v where v: "v_value (validateKeysFromCommand tbl c) = Some v"
    by (auto simp: valid_def)
  with assms(2) have "run_valid r t c v w = (Inr spokenOutput, w1)" by simp
  with v show ?thesis by (simp add: await_def)
qed

text \<open>
  Claim C2. When \<open>run\<close> returns a result, \<open>commands\<close> has one output per command of the
  test, in order: the errors of validation and no output for a command that failed
  validation, an output and no errors otherwise. \<open>results\<close> has, for every command in
  order, one result per assertion of the test, with \<open>pass\<close> true exactly for the commands
  that passed validation. So the two lists agree in length command by command:
  \<open>results\<close> falls into as many groups as \<open>commands\<close> has outputs, the group of an output
  holding one result per assertion of the test, each naming the command of the output
  and failing exactly when the output carries errors (\<open>commands\<close> has as many entries as
  the test has commands, \<open>results\<close> that number times the number of assertions). A
  command that fails validation is only logged: the loop goes on with the next command,
  the state otherwise unchanged, so nothing is navigated to and no key is pressed. For
  a command that passes validation the loop goes on, once the steps of \<open>run_valid\<close> have
  returned the lines spoken, with these lines joined by line feeds as its output.
\<close>

theorem run_result_shape:
  "(run tbl r t w = (Inr res, w') \<longrightarrow>
      list_all2 (output_of tbl) (commands t) (tr_commands res)
    \<and> length (tr_commands res) = length (commands t)
    \<and> map (\<lambda>x. (ar_command x, ar_pass x)) (tr_results res) =
        concat (map (\<lambda>c. map (\<lambda>a. (cmd_id c, valid tbl c)) (assertions t)) (commands t))
    \<and> length (tr_results res) = length (commands t) * length (assertions t)
    \<and> (\<exists>groups. tr_results res = concat groups
          \<and> length groups = length (tr_commands res)
          \<and> list_all2 (group_of t) (tr_commands res) groups))
   \<and> (\<not> valid tbl c \<longrightarrow>
        run_loop tbl r t (c # later) commandsOutput results w =
        run_loop tbl r t later
          (commandsOutput @ [\<lparr>co_command = cmd_id c, co_output = None,
                               co_errors = v_errors (validateKeysFromCommand tbl c)\<rparr>])
          (results @ map (\<lambda>a. \<lparr>ar_command = cmd_id c, ar_expectation = expectation a,
                                  ar_pass = False\<rparr>) (assertions t))
          (emit [Log INVALID_KEYS] w))
   \<and> (valid tbl c' \<and>
        run_valid r t c' (the (v_value (validateKeysFromCommand tbl c'))) w = (Inr spokenOutput, w1) \<longrightarrow>
        run_loop tbl r t (c' # later) commandsOutput results w =
        run_loop tbl r t later
          (commandsOutput @ [\<lparr>co_command = cmd_id c',
                               co_output = Some (join [CHR 0x0A] spokenOutput),
                               co_errors = None\<rparr>])
          (results @ map (\<lambda>a. \<lparr>ar_command = cmd_id c',
                                  ar_expectation = js_or (expectation a) (assertionStatement a),
                                  ar_pass = True\<rparr>) (assertions t))
          w1)"
proof (intro conjI impI)
  assume run: "run tbl r t w = (Inr res, w')"
  from run_results(2) [OF run]
  show outs: "list_all2 (output_of tbl) (commands t) (tr_commands res)" .
  then show "length (tr_commands res) = length (commands t)"
    by (simp add: list_all2_lengthD)
  have res: "tr_results res = concat (map (results_of tbl t) (commands t))"
    by (rule run_results(1) [OF run])
  show "map (\<lambda>x. (ar_command x, ar_pass x)) (tr_results res) =
        concat (map (\<lambda>c. map (\<lambda>a. (cmd_id c, valid tbl c)) (assertions t)) (commands t))"
    unfolding res by (simp add: map_concat results_of_def comp_def)
  show "length (tr_results res) = length (commands t) * length (assertions t)"
    unfolding res by (rule length_concat_const) (simp add: results_of_def)
  from outs have g: "list_all2 (group_of t) (tr_commands res) (map (results_of tbl t) (commands t))"
    by (rule groups_of_outputs)
  then have "length (map (results_of tbl t) (commands t)) = length (tr_commands res)"
    by (simp add: list_all2_lengthD)
  with res g show "\<exists>groups. tr_results res = concat groups
          \<and> length groups = length (tr_commands res)
          \<and> list_all2 (group_of t) (tr_commands res) groups"
    by blast
next
  assume "\<not> valid tbl c"
  then show "run_loop tbl r t (c # later) commandsOutput results w =
        run_loop tbl r t later
          (commandsOutput @ [\<lparr>co_command = cmd_id c, co_output = None,
                               co_errors = v_errors (validateKeysFromCommand tbl c)\<rparr>])
          (results @ map (\<lambda>a. \<lparr>ar_command = cmd_id c, ar_expectation = expectation a,
                                  ar_pass = False\<rparr>) (assertions t))
          (emit [Log INVALID_KEYS] w)"
    by (simp add: valid_def await_def perform_def)
next
  assume "valid tbl c' \<and>
        run_valid r t c' (the (v_value (validateKeysFromCommand tbl c'))) w = (Inr spokenOutput, w1)"
  then have v: "valid tbl c'" and rv:
    "run_valid r t c' (the (v_value (validateKeysFromCommand tbl c'))) w = (Inr spokenOutput, w1)"
    by simp_all
  show "run_loop tbl r t (c' # later) commandsOutput results w =
        run_loop tbl r t later
          (commandsOutput @ [\<lparr>co_command = cmd_id c',
                               co_output = Some (join [CHR 0x0A] spokenOutput),
                               co_errors = None\<rparr>])
          (results @ map (\<lambda>a. \<lparr>ar_command = cmd_id c',
                                  ar_expectation = js_or (expectation a) (assertionStatement a),
                                  ar_pass = True\<rparr>) (assertions t))
          w1"
    by (rule run_loop_valid [OF v rv])
qed

text \<open>A test of two commands, \<open>ENTER\<close> and \<open>A/B\<close>, and two assertions: two outputs, the
  first with the line spoken and the second with errors, and two groups of two results.\<close>

theorem run_result_shape_witness:
  "run (map_of seleniumKeysMap) plain_runner test_AB world_AB = (Inr (projr (fst run_AB)), snd run_AB)
   \<and> \<not> valid (map_of seleniumKeysMap) command_B
   \<and> valid (map_of seleniumKeysMap) command_A
   \<and> run_valid plain_runner test_AB command_A
         (the (v_value (validateKeysFromCommand (map_of seleniumKeysMap) command_A))) world_AB =
       (Inr [''button, OK''], snd (run_valid plain_runner test_AB command_A command_A world_AB))
   \<and> list_all2 (output_of (map_of seleniumKeysMap)) (commands test_AB)
        (tr_commands (projr (fst run_AB)))
   \<and> length (tr_commands (projr (fst run_AB))) = length (commands test_AB)
   \<and> map (\<lambda>x. (ar_command x, ar_pass x)) (tr_results (projr (fst run_AB))) =
        concat (map (\<lambda>c. map (\<lambda>a. (cmd_id c, valid (map_of seleniumKeysMap) c)) (assertions test_AB))
          (commands test_AB))
   \<and> length (tr_results (projr (fst run_AB))) = length (commands test_AB) * length (assertions test_AB)
   \<and> (\<exists>groups. tr_results (projr (fst run_AB)) = concat groups
          \<and> length groups = length (tr_commands (projr (fst run_AB)))
          \<and> list_all2 (group_of test_AB) (tr_commands (projr (fst run_AB))) groups)
   \<and> run_loop (map_of seleniumKeysMap) plain_runner test_AB (command_B # []) [] [] world_AB =
        run_loop (map_of seleniumKeysMap) plain_runner test_AB []
          ([] @ [\<lparr>co_command = cmd_id command_B, co_output = None,
                   co_errors = v_errors (validateKeysFromCommand (map_of seleniumKeysMap) command_B)\<rparr>])
          ([] @ map (\<lambda>a. \<lparr>ar_command = cmd_id command_B, ar_expectation = expectation a,
                             ar_pass = False\<rparr>) (assertions test_AB))
          (emit [Log INVALID_KEYS] world_AB)
   \<and> run_loop (map_of seleniumKeysMap) plain_runner test_AB (command_A # []) [] [] world_AB =
        run_loop (map_of seleniumKeysMap) plain_runner test_AB []
          ([] @ [\<lparr>co_command = cmd_id command_A,
                   co_output = Some (join [CHR 0x0A] [''button, OK'']),
                   co_errors = None\<rparr>])
          ([] @ map (\<lambda>a. \<lparr>ar_command = cmd_id command_A,
                             ar_expectation = js_or (expectation a) (assertionStatement a),
                             ar_pass = True\<rparr>) (assertions test_AB))
          (snd (run_valid plain_runner test_AB command_A command_A world_AB))
   \<and> map (\<lambda>out. (co_command out, co_output out, co_errors out = None))
         (tr_commands (projr (fst run_AB))) =
       [(''c1'', Some ''button, OK'', True), (''c2'', None, False)]
   \<and> map (\<lambda>x. (ar_command x, ar_pass x)) (tr_results (projr (fst run_AB))) =
       [(''c1'', True), (''c1'', True), (''c2'', False), (''c2'', False)]"
proof -
  have h1: "run (map_of seleniumKeysMap) plain_runner test_AB world_AB =
              (Inr (projr (fst run_AB)), snd run_AB)"
    by code_simp
  have h2: "\<not> valid (map_of seleniumKeysMap) command_B"
    by code_simp
  have h3: "valid (map_of seleniumKeysMap) command_A"
    by code_simp
  have h4: "run_valid plain_runner test_AB command_A
         (the (v_value (validateKeysFromCommand (map_of seleniumKeysMap) command_A))) world_AB =
       (Inr [''button, OK''], snd (run_valid plain_runner test_AB command_A command_A world_AB))"
    by code_simp
  have e1: "map (\<lambda>out. (co_command out, co_output out, co_errors out = None))
         (tr_commands (projr (fst run_AB))) =
       [(''c1'', Some ''button, OK'', True), (''c2'', None, False)]"
    by code_simp
  have e2: "map (\<lambda>x. (ar_command x, ar_pass x)) (tr_results (projr (fst run_AB))) =
       [(''c1'', True), (''c1'', True), (''c2'', False), (''c2'', False)]"
    by code_simp
  from run_result_shape [of "map_of seleniumKeysMap" plain_runner test_AB world_AB
      "projr (fst run_AB)" "snd run_AB" command_B "[]" "[]" "[]" command_A "[''button, OK'']"
      "snd (run_valid plain_runner test_AB command_A command_A world_AB)"] h1 h2 h3 h4 e1 e2
  show ?thesis by blast
qed

text \<open>
  Claim C10. When \<open>run\<close> returns a result, the expectation of a result is
  \<open>assertion.expectation || assertion.assertionStatement\<close> for a command that passed
  validation and \<open>assertion.expectation\<close> for one that failed it. Hence, when no assertion
  of the test has an \<open>expectation\<close>, the failing results have no expectation and the
  passing ones carry the assertion statement.
\<close>

theorem run_expectations:
  assumes "run tbl r t w = (Inr res, w')"
  shows "map ar_expectation (tr_results res) =
           concat (map (\<lambda>c. map (\<lambda>a. if valid tbl c
                                       then js_or (expectation a) (assertionStatement a)
                                       else expectation a) (assertions t)) (commands t))
       \<and> ((\<forall>a\<in>set (assertions t). expectation a = None) \<longrightarrow>
            map (\<lambda>x. (ar_pass x, ar_expectation x)) (tr_results res) =
              concat (map (\<lambda>c. map (\<lambda>a. if valid tbl c then (True, assertionStatement a)
                                          else (False, None)) (assertions t)) (commands t)))"
proof -
  have res: "tr_results res = concat (map (results_of tbl t) (commands t))"
    by (rule run_results(1) [OF assms])
  have 1: "map ar_expectation (tr_results res) =
           concat (map (\<lambda>c. map (\<lambda>a. if valid tbl c
                                       then js_or (expectation a) (assertionStatement a)
                                       else expectation a) (assertions t)) (commands t))"
    unfolding res by (simp add: map_concat results_of_def comp_def)
  have 2: "map (\<lambda>x. (ar_pass x, ar_expectation x)) (tr_results res) =
              concat (map (\<lambda>c. map (\<lambda>a. if valid tbl c then (True, assertionStatement a)
                                          else (False, None)) (assertions t)) (commands t))"
    if none: "\<forall>a\<in>set (assertions t). expectation a = None"
  proof -
    have "map (\<lambda>x. (ar_pass x, ar_expectation x)) (results_of tbl t c) =
            map (\<lambda>a. if valid tbl c then (True, assertionStatement a) else (False, None))
              (assertions t)" for c
      using none by (simp add: results_of_def js_or_def)
    then show ?thesis unfolding res by (simp add: map_concat comp_def)
  qed
  from 1 2 show ?thesis by blast
qed

text \<open>The test of two commands: its assertions have statements only.\<close>

theorem run_expectations_witness:
  "run (map_of seleniumKeysMap) plain_runner test_AB world_AB = (Inr (projr (fst run_AB)), snd run_AB)
   \<and> list_all (\<lambda>a. expectation a = None) (assertions test_AB)
   \<and> map ar_expectation (tr_results (projr (fst run_AB))) =
           concat (map (\<lambda>c. map (\<lambda>a. if valid (map_of seleniumKeysMap) c
                                       then js_or (expectation a) (assertionStatement a)
                                       else expectation a) (assertions test_AB)) (commands test_AB))
   \<and> map (\<lambda>x. (ar_pass x, ar_expectation x)) (tr_results (projr (fst run_AB))) =
        [(True, Some ''Role button is conveyed''), (True, Some ''Name is conveyed''),
         (False, None), (False, None)]"
proof -
  have h1: "run (map_of seleniumKeysMap) plain_runner test_AB world_AB =
              (Inr (projr (fst run_AB)), snd run_AB)"
    by code_simp
  have h2: "list_all (\<lambda>a. expectation a = None) (assertions test_AB)" by code_simp
  then have h2': "\<forall>a\<in>set (assertions test_AB). expectation a = None" by (simp add: list_all_iff)
  have v: "concat (map (\<lambda>c. map (\<lambda>a. if valid (map_of seleniumKeysMap) c then (True, assertionStatement a)
                                          else (False, None)) (assertions test_AB)) (commands test_AB)) =
        [(True, Some ''Role button is conveyed''), (True, Some ''Name is conveyed''),
         (False, None), (False, None)]"
    by code_simp
  from run_expectations [OF h1] h2' v
  have "map ar_expectation (tr_results (projr (fst run_AB))) =
           concat (map (\<lambda>c. map (\<lambda>a. if valid (map_of seleniumKeysMap) c
                                       then js_or (expectation a) (assertionStatement a)
                                       else expectation a) (assertions test_AB)) (commands test_AB))"
    "map (\<lambda>x. (ar_pass x, ar_expectation x)) (tr_results (projr (fst run_AB))) =
        [(True, Some ''Role button is conveyed''), (True, Some ''Name is conveyed''),
         (False, None), (False, None)]"
    by simp_all
  with h1 h2 show ?thesis by blast
qed

section \<open>Capabilities\<close>

lemma quiet_fetches:
  assumes "events w' = events w @ es" and "quiet es"
  shows "fetches w' = fetches w"
  using assms by (simp add: fetches_def quiet_def)

lemma steady_fetches:
  assumes "steady m"
  shows "fetches (snd (m w)) = fetches w"
proof -
  from steadyD [OF assms, of w] obtain es where "events (snd (m w)) = events w @ es" "quiet es"
    by blast
  then show ?thesis by (rule quiet_fetches)
qed

lemma run_tests_reuse:
  "run_tests tbl r ts w = (outcomes, w') \<Longrightarrow>
     fetches w' = fetches w \<and> (\<forall>res. Inr res \<in> set outcomes \<longrightarrow> tr_capabilities res = collectedCapabilities r)"
proof (induction ts arbitrary: w outcomes w')
  case Nil
  then show ?case by simp
next
  case (Cons t ts)
  obtain outcome w1 where r1: "run tbl r t w = (outcome, w1)" by (cases "run tbl r t w")
  obtain more w2 where r2: "run_tests tbl r ts w1 = (more, w2)" by (cases "run_tests tbl r ts w1")
  from Cons.prems r1 r2 have out: "outcomes = outcome # more" and w': "w' = w2" by simp_all
  from steady_fetches [OF steady_run, of tbl r t w] r1 have f1: "fetches w1 = fetches w" by simp
  from Cons.IH [OF r2] have f2: "fetches w2 = fetches w1"
    and caps: "\<forall>res. Inr res \<in> set more \<longrightarrow> tr_capabilities res = collectedCapabilities r"
    by simp_all
  have "tr_capabilities res = collectedCapabilities r" if "outcome = Inr res" for res
    using run_results(3) [of tbl r t w res w1] r1 that by simp
  with caps out have "\<forall>res. Inr res \<in> set outcomes \<longrightarrow> tr_capabilities res = collectedCapabilities r"
    by auto
  with f1 f2 w' show ?case by simp
qed

text \<open>
  Claim C8. In the life of a runner the capabilities are asked for once, at
  construction: after any number of tests the browser driver and the AT driver have each
  been asked once more than before the runner was made, and every result that a run
  returns carries the record that was reported at construction.
\<close>

theorem capabilities_fetched_once:
  assumes "lifetime tbl t tests w = (outcomes, w')"
  shows "fetches w' = (fst (fetches w) + 1, snd (fetches w) + 1) \<and>
         (\<forall>res. Inr res \<in> set outcomes \<longrightarrow> tr_capabilities res = reported w)"
proof -
  let ?r = "\<lparr>timesOption = t, collectedCapabilities = reported w\<rparr>"
  let ?w0 = "emit [BrowserGetCapabilities, ATGetCapabilities] w"
  have new: "DriverTestRunner t w = (?r, ?w0)"
    by (simp add: DriverTestRunner_def getCapabilities_def)
  with assms have "run_tests tbl ?r tests ?w0 = (outcomes, w')" by (simp add: lifetime_def)
  from run_tests_reuse [OF this] have "fetches w' = fetches ?w0"
    and "\<forall>res. Inr res \<in> set outcomes \<longrightarrow> tr_capabilities res = reported w" by simp_all
  moreover have "fetches ?w0 = (fst (fetches w) + 1, snd (fetches w) + 1)"
    by (simp add: fetches_def emit_def)
  ultimately show ?thesis by simp
qed

text \<open>A runner that runs the same test twice.\<close>

theorem capabilities_fetched_once_witness:
  "lifetime (map_of seleniumKeysMap) some_times [test_AB, test_AB]
     (world_of nvda_capabilities (replies [''0'', ''1'']) []) = (fst life_AB, snd life_AB)
   \<and> fetches (snd life_AB) = (1, 1)
   \<and> length (fst life_AB) = 2
   \<and> Inr (projr (fst life_AB ! 0)) \<in> set (fst life_AB)
   \<and> Inr (projr (fst life_AB ! 1)) \<in> set (fst life_AB)
   \<and> tr_capabilities (projr (fst life_AB ! 0)) = nvda_capabilities
   \<and> tr_capabilities (projr (fst life_AB ! 1)) = nvda_capabilities"
proof -
  let ?w = "world_of nvda_capabilities (replies [''0'', ''1'']) []"
  have l: "lifetime (map_of seleniumKeysMap) some_times [test_AB, test_AB] ?w =
             (fst life_AB, snd life_AB)"
    by (simp add: life_AB_def)
  have n: "length (fst life_AB) = 2" by code_simp
  have m0: "Inr (projr (fst life_AB ! 0)) \<in> set (fst life_AB)" by code_simp
  have m1: "Inr (projr (fst life_AB ! 1)) \<in> set (fst life_AB)" by code_simp
  have f: "fetches ?w = (0, 0)" by code_simp
  have r: "reported ?w = nvda_capabilities" by (simp add: world_of_def)
  from capabilities_fetched_once [OF l] f r m0 m1
  have "fetches (snd life_AB) = (1, 1)"
    "tr_capabilities (projr (fst life_AB ! 0)) = nvda_capabilities"
    "tr_capabilities (projr (fst life_AB ! 1)) = nvda_capabilities"
    by simp_all
  with l n m0 m1 show ?thesis by blast
qed

end
